theory Spec2Isabelle
  imports Main
begin

section \<open>The recorder's scheduler (src/recorder/rec\_sched.c)\<close>

text \<open>
  The scheduler keeps three process-wide variables: the circular queue \<open>head\<close> of task
  list entries, the array \<open>tid_to_entry\<close> and the cursor \<open>current_entry\<close>, plus the
  counter \<open>num_active_threads\<close>. The model passes them around as one record. Task list
  entries live in an explicit store, because the code compares pointers
  (\<open>prev_ctx == ctx\<close>, \<open>entry == current_entry\<close>) and dereferences pointers that may
  be null. Every C pointer to an entry is a value of type \<open>ptr\<close>; the context is the
  first member of an entry, so \<open>&entry->ctx\<close> is the same pointer value.

  Whatever aborts the supervisor or is undefined in C is a value of type \<open>error\<close>:
  every function returns \<open>error + result\<close>.
\<close>

subsection \<open>Data\<close>

type_synonym addr = nat

datatype ptr =
    NULL
  | Entry addr
  | Queue_head  \<comment> \<open>\<open>(void * )&head\<close>: what an empty queue's first/last pointers hold\<close>

datatype error =
    Fatal string  \<comment> \<open>\<open>fatal(...)\<close>: abort with a diagnostic\<close>
  | Assertion_failed  \<comment> \<open>\<open>assert(...)\<close> does not hold\<close>
  | Null_dereference  \<comment> \<open>a member of \<open>NULL\<close> is read or written\<close>
  | Invalid_access  \<comment> \<open>a freed entry, or the queue head taken for an entry, is accessed\<close>
  | Out_of_bounds  \<comment> \<open>\<open>tid_to_entry\<close> is indexed outside \<open>0 .. MAX_TID - 1\<close>\<close>
  | Signed_overflow  \<comment> \<open>an \<open>int\<close> leaves its range\<close>
  | Corrupt_queue  \<comment> \<open>the queue is not a proper circular list\<close>
  | Blocked  \<comment> \<open>\<open>waitpid\<close> never reports a state change\<close>

text \<open>
  Modelled from the spec: \<open>struct context\<close> and its \<open>exec_state\<close> values are declared
  in share/task.h, which is not among the sources. The fields are the ones this file
  touches; the spec names the states Runnable, ProcessingSyscall and "other blocked
  states", and calls \<open>switchable\<close> a bool.
\<close>

datatype exec_state = RUNNABLE | PROCESSING_SYSCALL | OTHER_STATE nat

record struct_context =
  exec_state :: exec_state
  status :: int
  rec_tid :: int
  tid :: int
  child_mem_fd :: int
  syscallbuf_lib_start :: nat
  syscallbuf_lib_end :: nat
  desched_fd :: int
  desched_fd_child :: int
  switchable :: bool
  switch_counter :: int

text \<open>Calls to the external collaborators, in the order they are made.\<close>

datatype event =
    Sys_malloc_zero addr
  | Sys_open_child_mem int
  | Sys_ptrace_setup int
  | Init_hpc addr
  | Start_hpc addr int
  | Sys_waitpid_nonblock int
  | Waitpid_any
  | Sys_kill int int
  | Cleanup_hpc addr
  | Sys_close int
  | Close int
  | Sys_ptrace_detach int
  | Sys_free ptr

record sched =
  heap :: "addr \<rightharpoonup> struct_context"  \<comment> \<open>the allocated task list entries\<close>
  head :: "addr list"  \<comment> \<open>the circular queue, first entry to last\<close>
  tid_to_entry :: "ptr list"  \<comment> \<open>the array of \<open>MAX_TID\<close> entry pointers\<close>
  current_entry :: ptr
  num_active_threads :: int
  trace :: "event list"

record flags =
  max_events :: int
  max_rbc :: int

text \<open>
  Modelled from the spec: the wait backend and the resource backend (share/sys.c) are
  not among the sources. \<open>sys_waitpid_nonblock tid\<close> is the spec's
  \<open>poll_nonblocking(task_id) -> status option\<close>: \<open>Some st\<close> is a non-zero return
  with \<open>st\<close> stored through the status pointer, \<open>None\<close> is the return value 0.
  \<open>waitpid\<close> is the list of results that successive calls of
  \<open>waitpid(-1, &status, ...)\<close> give: return value, status, \<open>errno\<close>.
  \<open>sys_open_child_mem\<close> gives the descriptor opened for a task id.
\<close>

record env =
  sys_waitpid_nonblock :: "int \<Rightarrow> int option"
  waitpid :: "(int \<times> int \<times> int) list"
  sys_open_child_mem :: "int \<Rightarrow> int"

definition INT_MIN :: int where
  "INT_MIN = - 2147483648"

definition INT_MAX :: int where
  "INT_MAX = 2147483647"

definition EINTR :: int where
  "EINTR = 4"

definition SIGINT :: int where
  "SIGINT = 2"

definition MAX_TID :: "sched \<Rightarrow> int" where
  \<comment> \<open>the macro's value is the declared size of \<open>tid_to_entry\<close>\<close>
  "MAX_TID s = int (length (tid_to_entry s))"

definition sched_init :: "nat \<Rightarrow> sched" where
  \<comment> \<open>the static initialisers: an empty queue, a zeroed array of the given size, no cursor\<close>
  "sched_init n =
     \<lparr>heap = Map.empty, head = [], tid_to_entry = replicate n NULL,
      current_entry = NULL, num_active_threads = 0, trace = []\<rparr>"

definition log_calls :: "event list \<Rightarrow> sched \<Rightarrow> sched" where
  "log_calls evs s = s\<lparr>trace := trace s @ evs\<rparr>"

subsection \<open>Memory access\<close>

definition deref :: "sched \<Rightarrow> ptr \<Rightarrow> error + (addr \<times> struct_context)" where
  "deref s p =
     (case p of
        NULL \<Rightarrow> Inl Null_dereference
      | Queue_head \<Rightarrow> Inl Invalid_access
      | Entry a \<Rightarrow> (case heap s a of None \<Rightarrow> Inl Invalid_access | Some c \<Rightarrow> Inr (a, c)))"

definition store :: "addr \<Rightarrow> struct_context \<Rightarrow> sched \<Rightarrow> sched" where
  "store a c s = s\<lparr>heap := (heap s)(a \<mapsto> c)\<rparr>"

subsection \<open>The circular queue of sys/queue.h\<close>

text \<open>
  The \<open>CIRCLEQ\<close> macros come from the system header. The queue is the list of its
  entries from first to last; an entry's \<open>cqe_next\<close> is the entry after it, and the
  queue head after the last one.
\<close>

definition CIRCLEQ_FIRST :: "addr list \<Rightarrow> ptr" where
  "CIRCLEQ_FIRST q = (case q of [] \<Rightarrow> Queue_head | a # _ \<Rightarrow> Entry a)"

definition CIRCLEQ_EMPTY :: "addr list \<Rightarrow> bool" where
  "CIRCLEQ_EMPTY q = (CIRCLEQ_FIRST q = Queue_head)"

definition cqe_next :: "addr list \<Rightarrow> addr \<Rightarrow> ptr" where
  "cqe_next q a =
     (case dropWhile (\<lambda>x. x \<noteq> a) q of _ # b # _ \<Rightarrow> Entry b | _ \<Rightarrow> Queue_head)"

definition CIRCLEQ_LOOP_NEXT :: "addr list \<Rightarrow> addr \<Rightarrow> ptr" where
  "CIRCLEQ_LOOP_NEXT q a =
     (if cqe_next q a = Queue_head then CIRCLEQ_FIRST q else cqe_next q a)"

definition CIRCLEQ_INSERT_TAIL :: "addr list \<Rightarrow> addr \<Rightarrow> addr list" where
  "CIRCLEQ_INSERT_TAIL q a = q @ [a]"

definition CIRCLEQ_REMOVE :: "addr list \<Rightarrow> ptr \<Rightarrow> error + addr list" where
  "CIRCLEQ_REMOVE q p =
     (case p of
        NULL \<Rightarrow> Inl Null_dereference
      | Queue_head \<Rightarrow> Inl Invalid_access
      | Entry a \<Rightarrow> if a \<in> set q then Inr (remove1 a q) else Inl Invalid_access)"

subsection \<open>Lookups\<close>

definition get_entry :: "sched \<Rightarrow> int \<Rightarrow> error + ptr" where
  "get_entry s t =
     (if 0 \<le> t \<and> t < MAX_TID s then Inr (tid_to_entry s ! nat t) else Inl Out_of_bounds)"

definition get_task :: "sched \<Rightarrow> int \<Rightarrow> error + ptr" where
  "get_task s t =
     (case get_entry s t of
        Inl e \<Rightarrow> Inl e
      | Inr entry \<Rightarrow> Inr (if entry \<noteq> NULL then entry else NULL))"

definition next_entry :: "sched \<Rightarrow> ptr \<Rightarrow> error + ptr" where
  "next_entry s elt =
     (case elt of
        NULL \<Rightarrow> Inl Null_dereference
      | Queue_head \<Rightarrow> Inl Invalid_access
      | Entry a \<Rightarrow>
          if a \<in> set (head s) then Inr (CIRCLEQ_LOOP_NEXT (head s) a) else Inl Invalid_access)"

subsection \<open>Selection\<close>

definition note_switch :: "ptr \<Rightarrow> ptr \<Rightarrow> int \<Rightarrow> sched \<Rightarrow> error + sched" where
  "note_switch prev_ctx ctx max_ev s =
     (case deref s ctx of
        Inl e \<Rightarrow> Inl e
      | Inr (a, c) \<Rightarrow>
          if prev_ctx = ctx then
            (if switch_counter c = INT_MIN then Inl Signed_overflow
             else Inr (store a (c\<lparr>switch_counter := switch_counter c - 1\<rparr>) s))
          else Inr (store a (c\<lparr>switch_counter := max_ev\<rparr>) s))"

definition bootstrap :: "sched \<Rightarrow> sched" where
  \<comment> \<open>\<open>if (!entry) entry = current_entry = CIRCLEQ_FIRST(&head)\<close>\<close>
  "bootstrap s =
     (if current_entry s = NULL then s\<lparr>current_entry := CIRCLEQ_FIRST (head s)\<rparr> else s)"

definition unswitchable :: "sched \<Rightarrow> ptr \<Rightarrow> error + bool" where
  \<comment> \<open>\<open>ctx && !ctx->switchable\<close>\<close>
  "unswitchable s ctx =
     (if ctx = NULL then Inr False
      else (case deref s ctx of Inl e \<Rightarrow> Inl e | Inr (a, c) \<Rightarrow> Inr (\<not> switchable c)))"

definition prefer_next :: "int \<Rightarrow> ptr \<Rightarrow> sched \<Rightarrow> error + sched" where
  \<comment> \<open>the block under "Prefer switching to the next task if the current one exceeded its
      event limit"\<close>
  "prefer_next max_ev ctx s =
     (if ctx = NULL then Inr s
      else (case deref s ctx of
              Inl e \<Rightarrow> Inl e
            | Inr (a, c) \<Rightarrow>
                if switch_counter c < 0 then
                  (case next_entry s (current_entry s) of
                     Inl e \<Rightarrow> Inl e
                   | Inr n \<Rightarrow>
                       Inr (store a (c\<lparr>switch_counter := max_ev\<rparr>) (s\<lparr>current_entry := n\<rparr>)))
                else Inr s))"

text \<open>
  The \<open>do ... while (entry != current_entry)\<close> loop. The result is the state, \<open>entry\<close>,
  \<open>next_ctx\<close> and \<open>*by_waitpid\<close> when the loop is left. On a proper circular list the
  loop body runs at most once per entry; the second argument bounds the number of runs,
  and only a queue that holds an entry twice, which no linked list can, uses it up
  (\<open>get_active_thread_within_bound\<close> below).
\<close>

fun scan_loop :: "env \<Rightarrow> nat \<Rightarrow> ptr \<Rightarrow> sched \<Rightarrow> error + (sched \<times> ptr \<times> ptr \<times> int)" where
  "scan_loop w 0 entry s = Inl Corrupt_queue"
| "scan_loop w (Suc k) entry s =
     (case deref s entry of
        Inl e \<Rightarrow> Inl e
      | Inr (a, next_ctx) \<Rightarrow>
          if exec_state next_ctx \<noteq> PROCESSING_SYSCALL then Inr (s, entry, entry, 0)
          else
            (case sys_waitpid_nonblock w (tid next_ctx) of
               Some st \<Rightarrow>
                 Inr (store a (next_ctx\<lparr>status := st\<rparr>)
                        (log_calls [Sys_waitpid_nonblock (tid next_ctx)] s), entry, entry, 1)
             | None \<Rightarrow>
                 (case next_entry s entry of
                    Inl e \<Rightarrow> Inl e
                  | Inr entry' \<Rightarrow>
                      if entry' \<noteq> current_entry s
                      then scan_loop w k entry' (log_calls [Sys_waitpid_nonblock (tid next_ctx)] s)
                      else Inr (log_calls [Sys_waitpid_nonblock (tid next_ctx)] s, entry', NULL, 0))))"

text \<open>
  The \<open>while (-1 == (tid = waitpid(-1, &status, ...)))\<close> loop: an interrupted call is
  repeated, any other failure is fatal. The result is the reported task id, the status
  and the number of calls made.
\<close>

fun waitpid_loop :: "(int \<times> int \<times> int) list \<Rightarrow> nat \<Rightarrow> error + (int \<times> int \<times> nat)" where
  "waitpid_loop [] n = Inl Blocked"
| "waitpid_loop ((ret, st, errno) # rs) n =
     (if ret = - 1 then
        (if errno = EINTR then waitpid_loop rs (Suc n) else Inl (Fatal ''Failed to waitpid()''))
      else Inr (ret, st, Suc n))"

definition wait_for_runnable :: "env \<Rightarrow> sched \<Rightarrow> error + (sched \<times> ptr \<times> ptr \<times> int)" where
  \<comment> \<open>the block under "All the tasks are blocked. Wait for the next one to change state."\<close>
  "wait_for_runnable w s =
     (case waitpid_loop (waitpid w) 0 of
        Inl e \<Rightarrow> Inl e
      | Inr (t, st, n) \<Rightarrow>
          (case get_entry s t of
             Inl e \<Rightarrow> Inl e
           | Inr entry \<Rightarrow>
               (case deref s entry of
                  Inl e \<Rightarrow> Inl e
                | Inr (a, next_ctx) \<Rightarrow>
                    Inr (store a (next_ctx\<lparr>status := st\<rparr>) (log_calls (replicate n Waitpid_any) s),
                         entry, entry, 1))))"

definition pick :: "env \<Rightarrow> sched \<Rightarrow> error + (sched \<times> ptr \<times> ptr \<times> int)" where
  \<comment> \<open>the scan followed by the blocking wait when the scan found nothing\<close>
  "pick w s =
     (case scan_loop w (Suc (length (head s))) (current_entry s) s of
        Inl e \<Rightarrow> Inl e
      | Inr (s', entry, next_ctx, by_waitpid) \<Rightarrow>
          if next_ctx = NULL then wait_for_runnable w s'
          else Inr (s', entry, next_ctx, by_waitpid))"

definition commit :: "int \<Rightarrow> ptr \<Rightarrow> sched \<times> ptr \<times> ptr \<times> int \<Rightarrow> error + (sched \<times> ptr \<times> int)" where
  \<comment> \<open>\<open>current_entry = entry; note_switch(ctx, next_ctx, max_events); return next_ctx\<close>\<close>
  "commit max_ev ctx r =
     (case r of (s, entry, next_ctx, by_waitpid) \<Rightarrow>
        (case note_switch ctx next_ctx max_ev (s\<lparr>current_entry := entry\<rparr>) of
           Inl e \<Rightarrow> Inl e
         | Inr s' \<Rightarrow> Inr (s', next_ctx, by_waitpid)))"

definition rec_sched_get_active_thread ::
  "env \<Rightarrow> flags \<Rightarrow> ptr \<Rightarrow> sched \<Rightarrow> error + (sched \<times> ptr \<times> int)" where
  "rec_sched_get_active_thread w fl ctx s =
     (let s1 = bootstrap s in
      case unswitchable s1 ctx of
        Inl e \<Rightarrow> Inl e
      | Inr True \<Rightarrow> Inr (s1, ctx, 0)
      | Inr False \<Rightarrow>
          (case prefer_next (max_events fl) ctx s1 of
             Inl e \<Rightarrow> Inl e
           | Inr s2 \<Rightarrow>
               (case pick w s2 of
                  Inl e \<Rightarrow> Inl e
                | Inr r \<Rightarrow> commit (max_events fl) ctx r)))"

subsection \<open>Registration and deregistration\<close>

definition zero_context :: struct_context where
  \<comment> \<open>what \<open>sys_malloc_zero\<close> hands out\<close>
  "zero_context =
     \<lparr>exec_state = OTHER_STATE 0, status = 0, rec_tid = 0, tid = 0, child_mem_fd = 0,
      syscallbuf_lib_start = 0, syscallbuf_lib_end = 0, desched_fd = 0,
      desched_fd_child = 0, switchable = False, switch_counter = 0\<rparr>"

text \<open>
  \<open>rec_sched_register_thread\<close>; the second argument is the block that
  \<open>sys_malloc_zero\<close> returns for the new entry.
\<close>

definition rec_sched_register_thread ::
  "env \<Rightarrow> flags \<Rightarrow> addr \<Rightarrow> int \<Rightarrow> int \<Rightarrow> sched \<Rightarrow> error + sched" where
  "rec_sched_register_thread w fl e parent child s =
     (if \<not> (child > 0 \<and> child < MAX_TID s) then Inl Assertion_failed
      else
        let ctx = zero_context\<lparr>exec_state := RUNNABLE, status := 0, rec_tid := child,
                    tid := child, child_mem_fd := sys_open_child_mem w child\<rparr>
        in
        (case (if parent \<noteq> 0 then
                 (case get_task s parent of
                    Inl err \<Rightarrow> Inl err
                  | Inr parent_ctx \<Rightarrow>
                      (case deref s parent_ctx of
                         Inl err \<Rightarrow> Inl err
                       | Inr (pa, pc) \<Rightarrow>
                           Inr (ctx\<lparr>syscallbuf_lib_start := syscallbuf_lib_start pc,
                                    syscallbuf_lib_end := syscallbuf_lib_end pc\<rparr>)))
               else Inr ctx) of
           Inl err \<Rightarrow> Inl err
         | Inr ctx' \<Rightarrow>
             if num_active_threads s = INT_MAX then Inl Signed_overflow
             else
               Inr (s\<lparr>heap := (heap s)(e \<mapsto> ctx'\<lparr>desched_fd := - 1, desched_fd_child := - 1\<rparr>),
                      head := CIRCLEQ_INSERT_TAIL (head s) e,
                      tid_to_entry := (tid_to_entry s)[nat child := Entry e],
                      num_active_threads := num_active_threads s + 1,
                      trace := trace s @
                        [Sys_malloc_zero e, Sys_open_child_mem child, Sys_ptrace_setup child,
                         Init_hpc e, Start_hpc e (max_rbc fl)]\<rparr>)))"

definition move_cursor_off :: "ptr \<Rightarrow> sched \<Rightarrow> error + sched" where
  \<comment> \<open>the \<open>if (entry == current_entry)\<close> block of \<open>rec_sched_deregister_thread\<close>\<close>
  "move_cursor_off entry s =
     (if entry = current_entry s then
        (case next_entry s entry of
           Inl e \<Rightarrow> Inl e
         | Inr n \<Rightarrow>
             if entry = n then
               (if num_active_threads s = 1 then Inr (s\<lparr>current_entry := NULL\<rparr>)
                else Inl Assertion_failed)
             else Inr (s\<lparr>current_entry := n\<rparr>))
      else Inr s)"

text \<open>
  Modelled from the spec: \<open>sys_free\<close> (share/sys.c) is not among the sources; the spec
  says that deregistration destroys the record.
\<close>

definition sys_free :: "ptr \<Rightarrow> sched \<Rightarrow> sched" where
  "sys_free p s = (case p of Entry a \<Rightarrow> s\<lparr>heap := (heap s)(a := None)\<rparr> | _ \<Rightarrow> s)"

text \<open>
  \<open>rec_sched_deregister_thread\<close>; the argument is the context pointer \<open>*ctx_ptr\<close>. The
  function sets the caller's pointer to null at the end, which is no part of the
  scheduler's state.
\<close>

definition rec_sched_deregister_thread :: "ptr \<Rightarrow> sched \<Rightarrow> error + sched" where
  "rec_sched_deregister_thread ctx s =
     (case deref s ctx of
        Inl e \<Rightarrow> Inl e
      | Inr (a, c) \<Rightarrow>
          (case get_entry s (tid c) of
             Inl e \<Rightarrow> Inl e
           | Inr entry \<Rightarrow>
               (case move_cursor_off entry s of
                  Inl e \<Rightarrow> Inl e
                | Inr s1 \<Rightarrow>
                    (case CIRCLEQ_REMOVE (head s1) entry of
                       Inl e \<Rightarrow> Inl e
                     | Inr q \<Rightarrow>
                         if num_active_threads s1 = INT_MIN then Inl Signed_overflow
                         else if num_active_threads s1 - 1 < 0 then Inl Assertion_failed
                         else
                           Inr (sys_free entry
                                  (log_calls [Cleanup_hpc a, Sys_close (child_mem_fd c),
                                         Close (desched_fd c), Sys_ptrace_detach (tid c),
                                         Sys_free entry]
                                     (s1\<lparr>head := q,
                                         tid_to_entry := (tid_to_entry s1)[nat (tid c) := NULL],
                                         num_active_threads := num_active_threads s1 - 1\<rparr>)))))))"

definition rec_sched_get_num_threads :: "sched \<Rightarrow> int" where
  "rec_sched_get_num_threads s = num_active_threads s"

text \<open>
  \<open>rec_sched_exit_all\<close>. Every deregistration that returns takes one entry out of
  the queue, so the loop ends.
\<close>

function rec_sched_exit_all :: "sched \<Rightarrow> error + sched" where
  "rec_sched_exit_all s =
     (if CIRCLEQ_EMPTY (head s) then Inr s
      else
        (case deref s (CIRCLEQ_FIRST (head s)) of
           Inl e \<Rightarrow> Inl e
         | Inr (a, ctx) \<Rightarrow>
             (case rec_sched_deregister_thread (CIRCLEQ_FIRST (head s))
                     (log_calls [Sys_kill (tid ctx) SIGINT] s) of
                Inl e \<Rightarrow> Inl e
              | Inr s' \<Rightarrow> rec_sched_exit_all s')))"
  by pat_completeness auto
termination
proof (relation "measure (\<lambda>s. length (head s))")
  show "wf (measure (\<lambda>s. length (head s)))"
    by simp
next
  fix s :: sched and x :: bool and a :: addr and ctx :: struct_context and s' :: sched
  let ?s = "log_calls [Sys_kill (tid ctx) SIGINT] s"
  assume "rec_sched_deregister_thread (CIRCLEQ_FIRST (head s)) ?s = Inr s'"
  then obtain entry s1 q where s1: "move_cursor_off entry ?s = Inr s1"
    and q: "CIRCLEQ_REMOVE (head s1) entry = Inr q" and s': "head s' = q"
    by (auto simp: rec_sched_deregister_thread_def sys_free_def log_calls_def
        split: sum.splits prod.splits if_splits ptr.splits)
  from s1 have "head s1 = head s"
    by (auto simp: move_cursor_off_def log_calls_def split: sum.splits if_splits)
  with q obtain b where "b \<in> set (head s)" and "q = remove1 b (head s)"
    by (auto simp: CIRCLEQ_REMOVE_def split: ptr.splits if_splits)
  moreover from this have "0 < length (head s)"
    by (cases "head s") auto
  ultimately have "length (head s') < length (head s)"
    using s' by (simp add: length_remove1)
  then show "(s', s) \<in> measure (\<lambda>s. length (head s))"
    by simp
qed

declare rec_sched_exit_all.simps [simp del]

subsection \<open>Well-formed scheduler states\<close>

definition index_count :: "sched \<Rightarrow> nat" where
  \<comment> \<open>the number of slots of \<open>tid_to_entry\<close> that hold an entry\<close>
  "index_count s = length (filter (\<lambda>p. p \<noteq> NULL) (tid_to_entry s))"

definition unique_tids :: "sched \<Rightarrow> bool" where
  \<comment> \<open>no two live records share a task id\<close>
  "unique_tids s \<longleftrightarrow>
     (\<forall>a b c d. heap s a = Some c \<and> heap s b = Some d \<and> tid c = tid d \<longrightarrow> a = b)"

definition sched_inv :: "sched \<Rightarrow> bool" where
  \<comment> \<open>the queue holds exactly the live entries, each once; the index slot of a live
      entry's task id points at that entry; counter and index agree with the queue; the
      cursor is null or in the queue\<close>
  "sched_inv s \<longleftrightarrow>
     distinct (head s) \<and>
     dom (heap s) = set (head s) \<and>
     (\<forall>a\<in>set (head s). \<forall>c. heap s a = Some c \<longrightarrow> get_entry s (tid c) = Inr (Entry a)) \<and>
     index_count s = length (head s) \<and>
     num_active_threads s = int (length (head s)) \<and>
     (current_entry s = NULL \<or> (\<exists>a\<in>set (head s). current_entry s = Entry a))"

definition only_status_written :: "sched \<Rightarrow> sched \<Rightarrow> bool" where
  \<comment> \<open>the second state has the queue, the index, the cursor and the counter of the first,
      and the same live entries with the same fields, \<open>status\<close> apart\<close>
  "only_status_written s s' \<longleftrightarrow>
     head s' = head s \<and> tid_to_entry s' = tid_to_entry s \<and>
     current_entry s' = current_entry s \<and> num_active_threads s' = num_active_threads s \<and>
     (\<forall>b. rel_option (\<lambda>c c'. c'\<lparr>status := 0\<rparr> = c\<lparr>status := 0\<rparr>) (heap s b) (heap s' b))"

definition unblocked_switchable :: "sched \<Rightarrow> bool" where
  \<comment> \<open>every entry of the queue is live, is not processing a syscall and is switchable\<close>
  "unblocked_switchable s \<longleftrightarrow>
     (\<forall>a\<in>set (head s).
        case heap s a of
          None \<Rightarrow> False
        | Some c \<Rightarrow> exec_state c \<noteq> PROCESSING_SYSCALL \<and> switchable c)"

subsection \<open>Sequences of calls\<close>

datatype call =
    Register addr int int  \<comment> \<open>the block \<open>sys_malloc_zero\<close> returns, \<open>parent\<close>, \<open>child\<close>\<close>
  | Deregister ptr

fun do_call :: "env \<Rightarrow> flags \<Rightarrow> call \<Rightarrow> sched \<Rightarrow> error + sched" where
  "do_call w fl (Register e parent child) s = rec_sched_register_thread w fl e parent child s"
| "do_call w fl (Deregister p) s = rec_sched_deregister_thread p s"

fun run_calls :: "env \<Rightarrow> flags \<Rightarrow> call list \<Rightarrow> sched \<Rightarrow> error + sched" where
  "run_calls w fl [] s = Inr s"
| "run_calls w fl (c # cs) s =
     (case do_call w fl c s of Inl e \<Rightarrow> Inl e | Inr s' \<Rightarrow> run_calls w fl cs s')"

fun new_task :: "call \<Rightarrow> sched \<Rightarrow> bool" where
  \<comment> \<open>a registration gets a block that is not in use and a task id that is not
      registered\<close>
  "new_task (Register e parent child) s =
     (heap s e = None \<and> (case get_entry s child of Inl err \<Rightarrow> True | Inr p \<Rightarrow> p = NULL))"
| "new_task (Deregister p) s = True"

fun new_tasks :: "env \<Rightarrow> flags \<Rightarrow> call list \<Rightarrow> sched \<Rightarrow> bool" where
  "new_tasks w fl [] s = True"
| "new_tasks w fl (c # cs) s =
     (new_task c s \<and>
      (case do_call w fl c s of Inl e \<Rightarrow> True | Inr s' \<Rightarrow> new_tasks w fl cs s'))"

text \<open>
  Modelled from the spec: the recorder's loop (recorder.c) is not among the sources.
  The spec has it ask the scheduler for a task, perform one step for the task chosen,
  and ask again with that task as the current one. While a task runs, its
  \<open>switch_counter\<close> goes from \<open>x\<close> to \<open>used x\<close>. The result lists the tasks in the
  order they were chosen.
\<close>

definition run_task :: "(int \<Rightarrow> int) \<Rightarrow> ptr \<Rightarrow> sched \<Rightarrow> sched" where
  "run_task used ctx s =
     (case deref s ctx of
        Inl e \<Rightarrow> s
      | Inr (a, c) \<Rightarrow> store a (c\<lparr>switch_counter := used (switch_counter c)\<rparr>) s)"

fun schedule_repeatedly ::
  "env \<Rightarrow> flags \<Rightarrow> (int \<Rightarrow> int) \<Rightarrow> nat \<Rightarrow> ptr \<Rightarrow> sched \<Rightarrow> error + (sched \<times> ptr list)" where
  "schedule_repeatedly w fl used 0 ctx s = Inr (s, [])"
| "schedule_repeatedly w fl used (Suc n) ctx s =
     (case rec_sched_get_active_thread w fl ctx (run_task used ctx s) of
        Inl e \<Rightarrow> Inl e
      | Inr (s', next_ctx, by_waitpid) \<Rightarrow>
          (case schedule_repeatedly w fl used n next_ctx s' of
             Inl e \<Rightarrow> Inl e
           | Inr (s'', chosen) \<Rightarrow> Inr (s'', next_ctx # chosen)))"

definition terminate_calls :: "sched \<Rightarrow> addr \<Rightarrow> event list" where
  \<comment> \<open>what one round of the loop of \<open>rec_sched_exit_all\<close> asks of the collaborators for
      the entry at the head of the queue: the signal, then the releases of
      \<open>rec_sched_deregister_thread\<close>\<close>
  "terminate_calls s a =
     (case heap s a of
        None \<Rightarrow> []
      | Some c \<Rightarrow>
          [Sys_kill (tid c) SIGINT, Cleanup_hpc a, Sys_close (child_mem_fd c),
           Close (desched_fd c), Sys_ptrace_detach (tid c), Sys_free (Entry a)])"

subsection \<open>Example states\<close>

text \<open>
  The spec's scenario: tasks A, B and C, with the task ids 5, 6 and 7, registered in
  that order in an index of eight slots, in the blocks 1, 2 and 3. No poll reports a
  change and \<open>max_events\<close> is 10.
\<close>

definition env0 :: env where
  "env0 =
     \<lparr>sys_waitpid_nonblock = (\<lambda>t. None), waitpid = [],
      sys_open_child_mem = (\<lambda>t. 100 + t)\<rparr>"

definition flags10 :: flags where
  "flags10 = \<lparr>max_events = 10, max_rbc = 1000\<rparr>"

definition fresh_task :: "int \<Rightarrow> struct_context" where
  "fresh_task t =
     \<lparr>exec_state = RUNNABLE, status = 0, rec_tid = t, tid = t, child_mem_fd = 100 + t,
      syscallbuf_lib_start = 0, syscallbuf_lib_end = 0, desched_fd = - 1,
      desched_fd_child = - 1, switchable = False, switch_counter = 0\<rparr>"

definition abc :: sched where
  "abc =
     \<lparr>heap = [1 \<mapsto> fresh_task 5, 2 \<mapsto> fresh_task 6, 3 \<mapsto> fresh_task 7],
      head = [1, 2, 3],
      tid_to_entry = [NULL, NULL, NULL, NULL, NULL, Entry 1, Entry 2, Entry 3],
      current_entry = NULL, num_active_threads = 3,
      trace =
        [Sys_malloc_zero 1, Sys_open_child_mem 5, Sys_ptrace_setup 5, Init_hpc 1,
         Start_hpc 1 1000,
         Sys_malloc_zero 2, Sys_open_child_mem 6, Sys_ptrace_setup 6, Init_hpc 2,
         Start_hpc 2 1000,
         Sys_malloc_zero 3, Sys_open_child_mem 7, Sys_ptrace_setup 7, Init_hpc 3,
         Start_hpc 3 1000]\<rparr>"

definition a_current :: "bool \<Rightarrow> int \<Rightarrow> sched" where
  \<comment> \<open>A, B and C registered; A is the cursor's task and holds the given \<open>switchable\<close>
      flag and \<open>switch_counter\<close>\<close>
  "a_current sw n =
     store 1 ((fresh_task 5)\<lparr>switchable := sw, switch_counter := n\<rparr>)
       (abc\<lparr>current_entry := Entry 1\<rparr>)"

definition b_chosen :: sched where
  \<comment> \<open>A has a fresh counter, B is the cursor's task and has a fresh counter too\<close>
  "b_chosen =
     store 2 ((fresh_task 6)\<lparr>switch_counter := 10\<rparr>)
       (store 1 ((fresh_task 5)\<lparr>switchable := True, switch_counter := 10\<rparr>)
          (abc\<lparr>current_entry := Entry 2\<rparr>))"

definition all_blocked :: sched where
  \<comment> \<open>A, B and C registered, each of them processing a syscall\<close>
  "all_blocked =
     abc\<lparr>heap := map_option (\<lambda>c. c\<lparr>exec_state := PROCESSING_SYSCALL\<rparr>) \<circ> heap abc\<rparr>"

definition env_stranger :: env where
  \<comment> \<open>no poll reports a change; the blocking wait reports task id 4, which nobody
      registered, with the status 1407\<close>
  "env_stranger = env0\<lparr>waitpid := [(4, 1407, 0)]\<rparr>"

definition env_b_ready :: env where
  \<comment> \<open>the poll of task id 6 reports a change with the status 1407\<close>
  "env_b_ready = env0\<lparr>sys_waitpid_nonblock := (\<lambda>t. if t = 6 then Some 1407 else None)\<rparr>"

definition env_b_ready' :: env where
  \<comment> \<open>as \<open>env_b_ready\<close> for the task ids 5, 6 and 7; other answers differ\<close>
  "env_b_ready' =
     env0\<lparr>sys_waitpid_nonblock := (\<lambda>t. if t = 6 then Some 1407 else if t = 99 then Some 1 else None),
          sys_open_child_mem := (\<lambda>t. 200 + t)\<rparr>"

definition twice_5 :: sched where
  \<comment> \<open>the task id 5 registered twice, in the blocks 1 and 2\<close>
  "twice_5 =
     \<lparr>heap = [1 \<mapsto> fresh_task 5, 2 \<mapsto> fresh_task 5],
      head = [1, 2],
      tid_to_entry = [NULL, NULL, NULL, NULL, NULL, Entry 2, NULL, NULL],
      current_entry = NULL, num_active_threads = 2,
      trace =
        [Sys_malloc_zero 1, Sys_open_child_mem 5, Sys_ptrace_setup 5, Init_hpc 1,
         Start_hpc 1 1000,
         Sys_malloc_zero 2, Sys_open_child_mem 5, Sys_ptrace_setup 5, Init_hpc 2,
         Start_hpc 2 1000]\<rparr>"

definition ac :: sched where
  \<comment> \<open>A, B and C registered, then B deregistered\<close>
  "ac =
     \<lparr>heap = [1 \<mapsto> fresh_task 5, 3 \<mapsto> fresh_task 7],
      head = [1, 3],
      tid_to_entry = [NULL, NULL, NULL, NULL, NULL, Entry 1, NULL, Entry 3],
      current_entry = NULL, num_active_threads = 2,
      trace = trace abc @
        [Cleanup_hpc 2, Sys_close 106, Close (- 1), Sys_ptrace_detach 6, Sys_free (Entry 2)]\<rparr>"

definition only_b :: sched where
  \<comment> \<open>B alone is registered, in block 2 with the task id 6, and is the cursor's task\<close>
  "only_b =
     \<lparr>heap = [2 \<mapsto> fresh_task 6], head = [2],
      tid_to_entry = [NULL, NULL, NULL, NULL, NULL, NULL, Entry 2, NULL],
      current_entry = Entry 2, num_active_threads = 1, trace = []\<rparr>"

definition switchable_abc :: sched where
  \<comment> \<open>A, B and C registered and switchable, nothing chosen yet\<close>
  "switchable_abc =
     abc\<lparr>heap := [1 \<mapsto> (fresh_task 5)\<lparr>switchable := True\<rparr>,
                  2 \<mapsto> (fresh_task 6)\<lparr>switchable := True\<rparr>,
                  3 \<mapsto> (fresh_task 7)\<lparr>switchable := True\<rparr>]\<rparr>"

definition a_thrice :: sched where
  \<comment> \<open>\<open>switchable_abc\<close> after A was chosen three times in a row\<close>
  "a_thrice =
     store 1 ((fresh_task 5)\<lparr>switchable := True, switch_counter := 8\<rparr>)
       (switchable_abc\<lparr>current_entry := Entry 1\<rparr>)"

definition overrun :: "int \<Rightarrow> int" where
  \<comment> \<open>a task that runs until it has exceeded its event limit\<close>
  "overrun x = - 1"

section \<open>Basic facts\<close>

lemma registered_abc:
  "run_calls env0 flags10 [Register 1 0 5, Register 2 5 6, Register 3 5 7] (sched_init 8) =
   Inr abc"
  by (simp add: rec_sched_register_thread_def sched_init_def abc_def env0_def flags10_def
      fresh_task_def zero_context_def MAX_TID_def INT_MAX_def get_task_def get_entry_def
      deref_def CIRCLEQ_INSERT_TAIL_def eval_nat_numeral)

lemma deref_eq_Inr: "deref s p = Inr (a, c) \<longleftrightarrow> p = Entry a \<and> heap s a = Some c"
  by (auto simp: deref_def split: ptr.splits option.splits)

lemma deref_same_heap: "heap s' = heap s \<Longrightarrow> deref s' p = deref s p"
  by (cases p) (simp_all add: deref_def)

lemma bootstrap_fields:
  "heap (bootstrap s) = heap s" "head (bootstrap s) = head s"
  "tid_to_entry (bootstrap s) = tid_to_entry s"
  "num_active_threads (bootstrap s) = num_active_threads s" "trace (bootstrap s) = trace s"
  by (simp_all add: bootstrap_def)

subsection \<open>The queue\<close>

lemma dropWhile_neq_nth:
  assumes "distinct q" and "i < length q"
  shows "dropWhile (\<lambda>x. x \<noteq> q ! i) q = drop i q"
proof -
  have "\<And>x. x \<in> set (take i q) \<Longrightarrow> x \<noteq> q ! i"
  proof
    fix x assume "x \<in> set (take i q)" and "x = q ! i"
    then obtain j where "j < i" and "q ! j = q ! i"
      using assms(2) by (auto simp: in_set_conv_nth)
    with assms show False
      by (simp add: nth_eq_iff_index_eq)
  qed
  then have "dropWhile (\<lambda>x. x \<noteq> q ! i) (take i q @ drop i q) =
             dropWhile (\<lambda>x. x \<noteq> q ! i) (drop i q)"
    by (rule dropWhile_append2)
  then have "dropWhile (\<lambda>x. x \<noteq> q ! i) q = dropWhile (\<lambda>x. x \<noteq> q ! i) (drop i q)"
    by simp
  moreover have "drop i q = q ! i # drop (Suc i) q"
    using assms(2) by (simp add: Cons_nth_drop_Suc)
  ultimately show ?thesis
    by simp
qed

lemma cqe_next_nth:
  assumes "distinct q" and "i < length q"
  shows "cqe_next q (q ! i) = (if Suc i < length q then Entry (q ! Suc i) else Queue_head)"
proof -
  have "drop i q = q ! i # drop (Suc i) q"
    using assms(2) by (simp add: Cons_nth_drop_Suc)
  moreover have "Suc i < length q \<Longrightarrow> drop (Suc i) q = q ! Suc i # drop (Suc (Suc i)) q"
    by (simp add: Cons_nth_drop_Suc)
  moreover have "\<not> Suc i < length q \<Longrightarrow> drop (Suc i) q = []"
    by simp
  ultimately show ?thesis
    using assms by (simp add: cqe_next_def dropWhile_neq_nth)
qed

lemma loop_next_nth:
  assumes "distinct q" and "i < length q"
  shows "CIRCLEQ_LOOP_NEXT q (q ! i) = Entry (q ! (Suc i mod length q))"
proof (cases "Suc i < length q")
  case True
  then show ?thesis
    using assms by (simp add: CIRCLEQ_LOOP_NEXT_def cqe_next_nth)
next
  case False
  with assms(2) have "Suc i = length q"
    by simp
  moreover from assms(2) obtain x xs where "q = x # xs"
    by (cases q) auto
  ultimately show ?thesis
    using assms False by (simp add: CIRCLEQ_LOOP_NEXT_def cqe_next_nth CIRCLEQ_FIRST_def)
qed

lemma loop_next_member:
  assumes "distinct q" and "a \<in> set q"
  shows "\<exists>b\<in>set q. CIRCLEQ_LOOP_NEXT q a = Entry b"
proof -
  from assms(2) obtain i where i: "i < length q" "q ! i = a"
    by (auto simp: in_set_conv_nth)
  then have "0 < length q"
    by linarith
  then have "Suc i mod length q < length q"
    by (rule mod_less_divisor)
  then have "q ! (Suc i mod length q) \<in> set q"
    by (rule nth_mem)
  then show ?thesis
    using loop_next_nth [OF assms(1) i(1)] i(2) by auto
qed

lemma loop_next_self:
  assumes "distinct q" and "a \<in> set q"
  shows "CIRCLEQ_LOOP_NEXT q a = Entry a \<longleftrightarrow> q = [a]"
proof -
  from assms(2) obtain i where i: "i < length q" "q ! i = a"
    by (auto simp: in_set_conv_nth)
  have "0 < length q"
    using i(1) by linarith
  then have lt: "Suc i mod length q < length q"
    by (rule mod_less_divisor)
  have "CIRCLEQ_LOOP_NEXT q a = Entry a \<longleftrightarrow> q ! (Suc i mod length q) = q ! i"
    using loop_next_nth [OF assms(1) i(1)] i(2) by auto
  also have "\<dots> \<longleftrightarrow> Suc i mod length q = i"
    using assms(1) i(1) lt by (simp add: nth_eq_iff_index_eq)
  also have "\<dots> \<longleftrightarrow> length q = 1"
  proof
    assume eq: "Suc i mod length q = i"
    show "length q = 1"
    proof (cases "Suc i < length q")
      case True
      with eq show ?thesis by simp
    next
      case False
      with i(1) have "Suc i = length q" by simp
      with eq show ?thesis by (cases i) auto
    qed
  next
    assume "length q = 1"
    with i(1) show "Suc i mod length q = i" by simp
  qed
  also have "\<dots> \<longleftrightarrow> q = [a]"
    using i by (cases q) auto
  finally show ?thesis .
qed

subsection \<open>What the scan and the blocking wait change\<close>

lemma only_status_written_refl: "only_status_written s s"
  by (simp add: only_status_written_def option.rel_refl)

lemma only_status_written_log: "only_status_written s (log_calls evs s)"
  by (simp add: only_status_written_def log_calls_def option.rel_refl)

lemma only_status_written_trans:
  assumes "only_status_written s s1" and "only_status_written s1 s2"
  shows "only_status_written s s2"
proof -
  have "rel_option (\<lambda>c c'. c'\<lparr>status := 0\<rparr> = c\<lparr>status := 0\<rparr>) (heap s b) (heap s2 b)" for b
  proof -
    from assms have "rel_option (\<lambda>c c'. c'\<lparr>status := 0\<rparr> = c\<lparr>status := 0\<rparr>) (heap s b) (heap s1 b)"
      and "rel_option (\<lambda>c c'. c'\<lparr>status := 0\<rparr> = c\<lparr>status := 0\<rparr>) (heap s1 b) (heap s2 b)"
      by (simp_all add: only_status_written_def)
    then show ?thesis
      by (cases "heap s b"; cases "heap s1 b"; cases "heap s2 b") auto
  qed
  with assms show ?thesis
    by (simp add: only_status_written_def)
qed

lemma only_status_written_store:
  "heap s a = Some c \<Longrightarrow> only_status_written s (store a (c\<lparr>status := st\<rparr>) (log_calls evs s))"
  by (simp add: only_status_written_def store_def log_calls_def option.rel_refl)

lemma scan_loop_result:
  "scan_loop w k entry s = Inr (sp, entry', chosen, bw) \<Longrightarrow>
   only_status_written s sp \<and>
   (chosen = NULL \<or> (\<exists>a c. chosen = Entry a \<and> entry' = chosen \<and> heap sp a = Some c))"
proof (induction k arbitrary: entry s)
  case 0
  then show ?case by simp
next
  case (Suc k)
  from Suc.prems obtain a c where d: "deref s entry = Inr (a, c)"
    by (cases "deref s entry") auto
  then have e: "entry = Entry a" "heap s a = Some c"
    by (simp_all add: deref_eq_Inr)
  show ?case
  proof (cases "exec_state c \<noteq> PROCESSING_SYSCALL")
    case True
    with Suc.prems d have "sp = s" "entry' = entry" "chosen = entry"
      by auto
    then show ?thesis
      using e by (simp add: only_status_written_refl)
  next
    case False
    note blocked = this
    show ?thesis
    proof (cases "sys_waitpid_nonblock w (tid c)")
      case (Some st)
      with Suc.prems d blocked
      have "sp = store a (c\<lparr>status := st\<rparr>) (log_calls [Sys_waitpid_nonblock (tid c)] s)"
        and "entry' = entry" and "chosen = entry"
        by auto
      then show ?thesis
        using e only_status_written_store [OF e(2)] by (simp add: store_def)
    next
      case None
      let ?s = "log_calls [Sys_waitpid_nonblock (tid c)] s"
      from Suc.prems d blocked None obtain n where n: "next_entry s entry = Inr n"
        by (cases "next_entry s entry") auto
      show ?thesis
      proof (cases "n \<noteq> current_entry s")
        case True
        with Suc.prems d blocked None n
        have "scan_loop w k n ?s = Inr (sp, entry', chosen, bw)"
          by simp
        from Suc.IH [OF this] only_status_written_log [of s] show ?thesis
          by (blast intro: only_status_written_trans)
      next
        case False
        with Suc.prems d blocked None n have "sp = ?s" and "chosen = NULL"
          by auto
        then show ?thesis
          by (simp add: only_status_written_log)
      qed
    qed
  qed
qed

lemma wait_for_runnable_result:
  assumes "wait_for_runnable w s = Inr (sp, entry', chosen, bw)"
  shows "only_status_written s sp \<and>
    (\<exists>a c. chosen = Entry a \<and> entry' = chosen \<and> heap sp a = Some c)"
proof -
  from assms obtain t st n where "waitpid_loop (waitpid w) 0 = Inr (t, st, n)"
    by (auto simp: wait_for_runnable_def split: sum.splits)
  moreover from assms this obtain entry where "get_entry s t = Inr entry"
    by (auto simp: wait_for_runnable_def split: sum.splits)
  moreover from assms calculation obtain a c where d: "deref s entry = Inr (a, c)"
    by (auto simp: wait_for_runnable_def split: sum.splits)
  ultimately have "sp = store a (c\<lparr>status := st\<rparr>) (log_calls (replicate n Waitpid_any) s)"
    and "entry' = entry" and "chosen = entry"
    using assms by (auto simp: wait_for_runnable_def)
  moreover from d have "entry = Entry a" "heap s a = Some c"
    by (simp_all add: deref_eq_Inr)
  ultimately show ?thesis
    using only_status_written_store [of s a c] by (simp add: store_def)
qed

lemma pick_result:
  assumes "pick w s = Inr (sp, entry', chosen, bw)"
  shows "only_status_written s sp \<and>
    (\<exists>a c. chosen = Entry a \<and> entry' = chosen \<and> heap sp a = Some c)"
proof -
  from assms obtain s1 e1 c1 b1
    where scan: "scan_loop w (Suc (length (head s))) (current_entry s) s = Inr (s1, e1, c1, b1)"
    by (auto simp: pick_def split: sum.splits)
  note r1 = scan_loop_result [OF scan]
  show ?thesis
  proof (cases "c1 = NULL")
    case True
    with assms scan have "wait_for_runnable w s1 = Inr (sp, entry', chosen, bw)"
      by (simp add: pick_def)
    from wait_for_runnable_result [OF this] r1 show ?thesis
      by (blast intro: only_status_written_trans)
  next
    case False
    with assms scan have "sp = s1" "entry' = e1" "chosen = c1" "bw = b1"
      by (simp_all add: pick_def)
    with r1 False show ?thesis
      by auto
  qed
qed

subsection \<open>The steps of a call that commits\<close>

lemma unswitchable_bootstrap: "unswitchable (bootstrap s) ctx = unswitchable s ctx"
  using deref_same_heap [of "bootstrap s" s ctx]
  by (simp add: unswitchable_def bootstrap_fields)

lemma get_active_thread_steps:
  assumes "rec_sched_get_active_thread w fl ctx s = Inr (s', chosen, bw)"
    and "unswitchable s ctx = Inr False"
  shows "\<exists>s2 sp entry a c.
           prefer_next (max_events fl) ctx (bootstrap s) = Inr s2 \<and>
           pick w s2 = Inr (sp, entry, Entry a, bw) \<and> entry = Entry a \<and> chosen = Entry a \<and>
           only_status_written s2 sp \<and> heap sp a = Some c \<and>
           note_switch ctx (Entry a) (max_events fl) (sp\<lparr>current_entry := entry\<rparr>) = Inr s'"
proof -
  from assms(2) have u: "unswitchable (bootstrap s) ctx = Inr False"
    by (simp add: unswitchable_bootstrap)
  from assms(1) u obtain s2 where s2: "prefer_next (max_events fl) ctx (bootstrap s) = Inr s2"
    by (cases "prefer_next (max_events fl) ctx (bootstrap s)")
      (auto simp: rec_sched_get_active_thread_def)
  from assms(1) u s2 obtain r where r: "pick w s2 = Inr r"
    and c: "commit (max_events fl) ctx r = Inr (s', chosen, bw)"
    by (cases "pick w s2") (auto simp: rec_sched_get_active_thread_def)
  obtain sp entry next_ctx b where r_eq: "r = (sp, entry, next_ctx, b)"
    by (cases r) auto
  from pick_result [OF r [unfolded r_eq]] obtain a c0
    where p: "only_status_written s2 sp" "next_ctx = Entry a" "entry = next_ctx"
      "heap sp a = Some c0"
    by auto
  from c r_eq have "chosen = next_ctx" "bw = b"
    and "note_switch ctx next_ctx (max_events fl) (sp\<lparr>current_entry := entry\<rparr>) = Inr s'"
    by (auto simp: commit_def split: sum.splits)
  with s2 r r_eq p show ?thesis
    by auto
qed

lemma note_switch_result:
  assumes "note_switch prev_ctx (Entry a) m s = Inr s'" and "heap s a = Some c"
  shows "s' = store a (c\<lparr>switch_counter :=
                           if prev_ctx = Entry a then switch_counter c - 1 else m\<rparr>) s"
  using assms by (auto simp: note_switch_def deref_def split: if_splits)

lemma prefer_next_exceeded:
  assumes "prefer_next m (Entry a) s = Inr s2"
    and "heap s a = Some c" and "switch_counter c < 0"
  shows "\<exists>e. current_entry s = Entry e \<and> e \<in> set (head s) \<and>
           s2 = store a (c\<lparr>switch_counter := m\<rparr>)
                  (s\<lparr>current_entry := CIRCLEQ_LOOP_NEXT (head s) e\<rparr>)"
  using assms
  by (auto simp: prefer_next_def deref_def next_entry_def
      split: sum.splits ptr.splits if_splits)

lemma only_status_written_counter:
  assumes "only_status_written s s'" and "heap s a = Some c"
  shows "\<exists>c'. heap s' a = Some c' \<and> switch_counter c' = switch_counter c"
proof -
  from assms have "rel_option (\<lambda>c c'. c'\<lparr>status := 0\<rparr> = c\<lparr>status := 0\<rparr>) (Some c) (heap s' a)"
    by (auto simp: only_status_written_def dest: spec [of _ a])
  then obtain c' where c': "heap s' a = Some c'" "c'\<lparr>status := 0\<rparr> = c\<lparr>status := 0\<rparr>"
    by (cases "heap s' a") auto
  from c'(2) have "switch_counter (c'\<lparr>status := 0\<rparr>) = switch_counter (c\<lparr>status := 0\<rparr>)"
    by (rule arg_cong)
  with c'(1) show ?thesis
    by simp
qed

lemma prefer_next_then_pick:
  assumes "rec_sched_get_active_thread w fl (Entry a) s = Inr (s', chosen, bw)"
    and "heap s a = Some c" and "switchable c" and "switch_counter c < 0"
  shows "\<exists>e c'.
           current_entry (bootstrap s) = Entry e \<and> e \<in> set (head s) \<and>
           (\<exists>sp. pick w (store a (c\<lparr>switch_counter := max_events fl\<rparr>)
                           (s\<lparr>current_entry := CIRCLEQ_LOOP_NEXT (head s) e\<rparr>)) =
                   Inr (sp, chosen, chosen, bw)) \<and>
           heap s' a = Some c' \<and>
           switch_counter c' =
             (if chosen = Entry a then max_events fl - 1 else max_events fl) \<and>
           (\<exists>b d. chosen = Entry b \<and> heap s' b = Some d \<and>
              (b \<noteq> a \<longrightarrow> switch_counter d = max_events fl))"
proof -
  let ?m = "max_events fl"
  have "unswitchable s (Entry a) = Inr False"
    using assms(2,3) by (simp add: unswitchable_def deref_def)
  from get_active_thread_steps [OF assms(1) this] obtain s2 sp b d
    where s2: "prefer_next ?m (Entry a) (bootstrap s) = Inr s2"
      and p: "pick w s2 = Inr (sp, Entry b, Entry b, bw)" and ch: "chosen = Entry b"
      and fr: "only_status_written s2 sp" and d: "heap sp b = Some d"
      and n: "note_switch (Entry a) (Entry b) ?m (sp\<lparr>current_entry := Entry b\<rparr>) = Inr s'"
    by auto
  have "heap (bootstrap s) a = Some c"
    using assms(2) by (simp add: bootstrap_fields)
  from prefer_next_exceeded [OF s2 this assms(4)] obtain e
    where e: "current_entry (bootstrap s) = Entry e" "e \<in> set (head s)"
      and s2_eq: "s2 = store a (c\<lparr>switch_counter := ?m\<rparr>)
                  (s\<lparr>current_entry := CIRCLEQ_LOOP_NEXT (head s) e\<rparr>)"
    by (auto simp: bootstrap_def split: if_splits)
  have "heap s2 a = Some (c\<lparr>switch_counter := ?m\<rparr>)"
    by (simp add: s2_eq store_def)
  from only_status_written_counter [OF fr this] obtain ca
    where ca: "heap sp a = Some ca" "switch_counter ca = ?m"
    by auto
  from d have "heap (sp\<lparr>current_entry := Entry b\<rparr>) b = Some d"
    by simp
  from note_switch_result [OF n this]
  have s'_eq: "s' = store b (d\<lparr>switch_counter :=
                        if Entry a = Entry b then switch_counter d - 1 else ?m\<rparr>)
                      (sp\<lparr>current_entry := Entry b\<rparr>)" .
  show ?thesis
  proof (cases "b = a")
    case True
    with ca d s'_eq have "heap s' a = Some (d\<lparr>switch_counter := ?m - 1\<rparr>)"
      by (simp add: store_def)
    with e p s2_eq ch True show ?thesis
      by auto
  next
    case False
    with ca s'_eq have "heap s' a = Some ca"
      and "heap s' b = Some (d\<lparr>switch_counter := ?m\<rparr>)"
      by (simp_all add: store_def)
    with e p s2_eq ch False ca(2) show ?thesis
      by auto
  qed
qed

lemma prefer_next_fields:
  assumes "prefer_next m ctx s = Inr s2"
  shows "head s2 = head s" and "tid_to_entry s2 = tid_to_entry s"
    and "num_active_threads s2 = num_active_threads s" and "trace s2 = trace s"
    and "dom (heap s2) = dom (heap s)"
  using assms
  by (auto simp: prefer_next_def store_def deref_eq_Inr split: if_splits sum.splits)

lemma get_entry_same_index: "tid_to_entry s' = tid_to_entry s \<Longrightarrow> get_entry s' t = get_entry s t"
  by (simp add: get_entry_def MAX_TID_def)

subsection \<open>What a call asks of the wait backend\<close>

lemma scan_loop_same_polls:
  assumes "\<forall>a c. heap s a = Some c \<longrightarrow>
             sys_waitpid_nonblock w1 (tid c) = sys_waitpid_nonblock w2 (tid c)"
  shows "scan_loop w1 k entry s = scan_loop w2 k entry s"
  using assms
proof (induction k arbitrary: entry s)
  case 0
  show ?case by simp
next
  case (Suc k)
  show ?case
  proof (cases "deref s entry")
    case (Inl e)
    then show ?thesis by simp
  next
    case (Inr r)
    obtain a c where r: "r = (a, c)"
      by (cases r) auto
    with Inr have "heap s a = Some c"
      by (simp add: deref_eq_Inr)
    with Suc.prems
    have polls: "sys_waitpid_nonblock w1 (tid c) = sys_waitpid_nonblock w2 (tid c)"
      by blast
    let ?s = "log_calls [Sys_waitpid_nonblock (tid c)] s"
    have "\<forall>a c. heap ?s a = Some c \<longrightarrow>
             sys_waitpid_nonblock w1 (tid c) = sys_waitpid_nonblock w2 (tid c)"
      using Suc.prems by (simp add: log_calls_def)
    then have "scan_loop w1 k n ?s = scan_loop w2 k n ?s" for n
      by (rule Suc.IH)
    with Inr r polls show ?thesis
      by (simp split: option.splits sum.splits)
  qed
qed

lemma pick_same_responses:
  assumes "\<forall>a c. heap s a = Some c \<longrightarrow>
             sys_waitpid_nonblock w1 (tid c) = sys_waitpid_nonblock w2 (tid c)"
    and "waitpid w1 = waitpid w2"
  shows "pick w1 s = pick w2 s"
proof -
  have wait: "wait_for_runnable w1 s' = wait_for_runnable w2 s'" for s'
    using assms(2) by (simp add: wait_for_runnable_def)
  have scan: "scan_loop w1 (Suc (length (head s))) (current_entry s) s =
              scan_loop w2 (Suc (length (head s))) (current_entry s) s"
    using assms(1) by (rule scan_loop_same_polls)
  show ?thesis
    by (simp only: pick_def scan wait)
qed

lemma prefer_next_tids:
  assumes "prefer_next m ctx s = Inr s2" and "heap s2 a = Some c2"
  shows "\<exists>c. heap s a = Some c \<and> tid c = tid c2"
  using assms
  by (auto simp: prefer_next_def store_def deref_eq_Inr split: if_splits sum.splits)

subsection \<open>The invariant\<close>

lemma count_set_entry:
  "i < length xs \<Longrightarrow> xs ! i = NULL \<Longrightarrow> p \<noteq> NULL \<Longrightarrow>
   length (filter (\<lambda>q. q \<noteq> NULL) (xs[i := p])) = Suc (length (filter (\<lambda>q. q \<noteq> NULL) xs))"
proof (induction xs arbitrary: i)
  case Nil
  then show ?case by simp
next
  case (Cons x xs)
  then show ?case by (cases i) auto
qed

lemma count_set_null:
  "i < length xs \<Longrightarrow> xs ! i \<noteq> NULL \<Longrightarrow>
   Suc (length (filter (\<lambda>q. q \<noteq> NULL) (xs[i := NULL]))) = length (filter (\<lambda>q. q \<noteq> NULL) xs)"
proof (induction xs arbitrary: i)
  case Nil
  then show ?case by simp
next
  case (Cons x xs)
  then show ?case by (cases i) auto
qed

lemma sched_inv_init: "sched_inv (sched_init n)"
  by (simp add: sched_inv_def sched_init_def index_count_def)

lemma sched_inv_index:
  assumes "sched_inv s" and "heap s a = Some c"
  shows "a \<in> set (head s)" and "get_entry s (tid c) = Inr (Entry a)"
proof -
  from assms have "a \<in> dom (heap s)"
    by auto
  with assms(1) show a: "a \<in> set (head s)"
    by (simp add: sched_inv_def)
  from assms(1)
  have "\<forall>a\<in>set (head s). \<forall>c. heap s a = Some c \<longrightarrow> get_entry s (tid c) = Inr (Entry a)"
    by (simp add: sched_inv_def)
  with a assms(2) show "get_entry s (tid c) = Inr (Entry a)"
    by blast
qed

lemma sched_inv_unique_tids:
  assumes "sched_inv s"
  shows "unique_tids s"
  unfolding unique_tids_def
proof (intro allI impI)
  fix a b c d
  assume h: "heap s a = Some c \<and> heap s b = Some d \<and> tid c = tid d"
  then have "get_entry s (tid c) = Inr (Entry a)" and "get_entry s (tid d) = Inr (Entry b)"
    using sched_inv_index(2) [OF assms] by blast+
  with h show "a = b"
    by simp
qed

lemma register_result:
  assumes "rec_sched_register_thread w fl e parent child s = Inr s'"
  shows "0 < child \<and> child < MAX_TID s \<and>
    (\<exists>c. s' = s\<lparr>heap := (heap s)(e \<mapsto> c),
              head := head s @ [e],
              tid_to_entry := (tid_to_entry s)[nat child := Entry e],
              num_active_threads := num_active_threads s + 1,
              trace := trace s @
                [Sys_malloc_zero e, Sys_open_child_mem child, Sys_ptrace_setup child,
                 Init_hpc e, Start_hpc e (max_rbc fl)]\<rparr> \<and>
         tid c = child \<and> exec_state c = RUNNABLE)"
proof -
  let ?ctx = "zero_context\<lparr>exec_state := RUNNABLE, status := 0, rec_tid := child,
                    tid := child, child_mem_fd := sys_open_child_mem w child\<rparr>"
  let ?inherit = "if parent \<noteq> 0 then
                 (case get_task s parent of
                    Inl err \<Rightarrow> Inl err
                  | Inr parent_ctx \<Rightarrow>
                      (case deref s parent_ctx of
                         Inl err \<Rightarrow> Inl err
                       | Inr (pa, pc) \<Rightarrow>
                           Inr (?ctx\<lparr>syscallbuf_lib_start := syscallbuf_lib_start pc,
                                    syscallbuf_lib_end := syscallbuf_lib_end pc\<rparr>)))
               else Inr ?ctx"
  from assms have child: "0 < child" "child < MAX_TID s"
    by (auto simp: rec_sched_register_thread_def split: if_splits)
  with assms obtain ctx' where i: "?inherit = Inr ctx'"
    by (cases ?inherit) (auto simp: rec_sched_register_thread_def Let_def)
  then have "tid ctx' = child" and "exec_state ctx' = RUNNABLE"
    by (auto split: if_splits sum.splits prod.splits)
  moreover from assms child i
  have "s' = s\<lparr>heap := (heap s)(e \<mapsto> ctx'\<lparr>desched_fd := - 1, desched_fd_child := - 1\<rparr>),
              head := head s @ [e],
              tid_to_entry := (tid_to_entry s)[nat child := Entry e],
              num_active_threads := num_active_threads s + 1,
              trace := trace s @
                [Sys_malloc_zero e, Sys_open_child_mem child, Sys_ptrace_setup child,
                 Init_hpc e, Start_hpc e (max_rbc fl)]\<rparr>"
    by (auto simp: rec_sched_register_thread_def Let_def CIRCLEQ_INSERT_TAIL_def
        split: if_splits)
  ultimately show ?thesis
    using child
    by (intro conjI exI [of _ "ctx'\<lparr>desched_fd := - 1, desched_fd_child := - 1\<rparr>"]) simp_all
qed

lemma register_inv:
  assumes inv: "sched_inv s"
    and fresh: "heap s e = None"
    and slot: "get_entry s child = Inr NULL"
    and reg: "rec_sched_register_thread w fl e parent child s = Inr s'"
  shows "sched_inv s'"
proof -
  from register_result [OF reg] obtain c
    where child: "0 < child" "child < MAX_TID s" and c: "tid c = child"
      and s': "s' = s\<lparr>heap := (heap s)(e \<mapsto> c),
              head := head s @ [e],
              tid_to_entry := (tid_to_entry s)[nat child := Entry e],
              num_active_threads := num_active_threads s + 1,
              trace := trace s @
                [Sys_malloc_zero e, Sys_open_child_mem child, Sys_ptrace_setup child,
                 Init_hpc e, Start_hpc e (max_rbc fl)]\<rparr>"
    by auto
  from child have lt: "nat child < length (tid_to_entry s)"
    by (simp add: MAX_TID_def)
  from slot child have null: "tid_to_entry s ! nat child = NULL"
    by (simp add: get_entry_def)
  from inv fresh have e: "e \<notin> set (head s)"
    by (auto simp: sched_inv_def)
  have 1: "distinct (head s')"
    using inv e by (simp add: s' sched_inv_def)
  have 2: "dom (heap s') = set (head s')"
    using inv by (auto simp: s' sched_inv_def)
  have 3: "get_entry s' (tid x) = Inr (Entry a)"
    if "a \<in> set (head s')" and "heap s' a = Some x" for a x
  proof (cases "a = e")
    case True
    with that(2) have "x = c"
      by (simp add: s')
    with True c child lt show ?thesis
      by (simp add: s' get_entry_def MAX_TID_def)
  next
    case False
    with that have "heap s a = Some x"
      by (simp add: s')
    from sched_inv_index(2) [OF inv this]
    have old: "0 \<le> tid x" "tid x < MAX_TID s" "tid_to_entry s ! nat (tid x) = Entry a"
      by (auto simp: get_entry_def split: if_splits)
    with null have "nat (tid x) \<noteq> nat child"
      by auto
    with old show ?thesis
      by (simp add: s' get_entry_def MAX_TID_def)
  qed
  have 4: "index_count s' = length (head s')"
    using inv count_set_entry [OF lt null, of "Entry e"]
    by (simp add: s' index_count_def sched_inv_def)
  have 5: "num_active_threads s' = int (length (head s'))"
    using inv by (simp add: s' sched_inv_def)
  have 6: "current_entry s' = NULL \<or> (\<exists>a\<in>set (head s'). current_entry s' = Entry a)"
    using inv by (auto simp: s' sched_inv_def)
  from 1 2 3 4 5 6 show ?thesis
    unfolding sched_inv_def by blast
qed

lemma move_cursor_off_live:
  assumes inv: "sched_inv s" and a: "a \<in> set (head s)"
  shows "move_cursor_off (Entry a) s =
         Inr (s\<lparr>current_entry :=
                  if current_entry s = Entry a
                  then (if head s = [a] then NULL else CIRCLEQ_LOOP_NEXT (head s) a)
                  else current_entry s\<rparr>)"
proof (cases "current_entry s = Entry a")
  case False
  then show ?thesis
    by (simp add: move_cursor_off_def)
next
  case True
  from inv have d: "distinct (head s)" and n: "num_active_threads s = int (length (head s))"
    by (simp_all add: sched_inv_def)
  have nx: "next_entry s (Entry a) = Inr (CIRCLEQ_LOOP_NEXT (head s) a)"
    using a by (simp add: next_entry_def)
  show ?thesis
  proof (cases "head s = [a]")
    case sole: True
    then have "CIRCLEQ_LOOP_NEXT (head s) a = Entry a"
      using loop_next_self [OF d a] by simp
    with True nx n sole show ?thesis
      by (simp add: move_cursor_off_def)
  next
    case more: False
    then have "CIRCLEQ_LOOP_NEXT (head s) a \<noteq> Entry a"
      using loop_next_self [OF d a] by simp
    with True nx more show ?thesis
      by (auto simp: move_cursor_off_def)
  qed
qed

lemma deregister_live:
  assumes inv: "sched_inv s" and live: "heap s a = Some c"
  shows "rec_sched_deregister_thread (Entry a) s =
         Inr (sys_free (Entry a)
                (log_calls [Cleanup_hpc a, Sys_close (child_mem_fd c), Close (desched_fd c),
                            Sys_ptrace_detach (tid c), Sys_free (Entry a)]
                   (s\<lparr>current_entry :=
                         if current_entry s = Entry a
                         then (if head s = [a] then NULL else CIRCLEQ_LOOP_NEXT (head s) a)
                         else current_entry s,
                       head := remove1 a (head s),
                       tid_to_entry := (tid_to_entry s)[nat (tid c) := NULL],
                       num_active_threads := num_active_threads s - 1\<rparr>)))"
proof -
  note idx = sched_inv_index [OF inv live]
  from idx(1) have "0 < length (head s)"
    by (cases "head s") auto
  moreover from inv have n: "num_active_threads s = int (length (head s))"
    by (simp add: sched_inv_def)
  ultimately have pos: "1 \<le> num_active_threads s"
    by linarith
  then have "num_active_threads s \<noteq> INT_MIN"
    by (simp add: INT_MIN_def)
  moreover have "deref s (Entry a) = Inr (a, c)"
    using live by (simp add: deref_eq_Inr)
  moreover note idx(2) move_cursor_off_live [OF inv idx(1)]
  ultimately show ?thesis
    using idx(1) pos
    by (simp add: rec_sched_deregister_thread_def CIRCLEQ_REMOVE_def)
qed

lemma deregister_inv:
  assumes inv: "sched_inv s" and dereg: "rec_sched_deregister_thread p s = Inr s'"
  shows "sched_inv s'"
proof -
  from dereg obtain a c where p: "p = Entry a" and live: "heap s a = Some c"
    by (cases "deref s p") (auto simp: rec_sched_deregister_thread_def deref_eq_Inr)
  note idx = sched_inv_index [OF inv live]
  from inv have d: "distinct (head s)"
    by (simp add: sched_inv_def)
  let ?cur = "if current_entry s = Entry a
              then (if head s = [a] then NULL else CIRCLEQ_LOOP_NEXT (head s) a)
              else current_entry s"
  from dereg deregister_live [OF inv live]
  have s': "s' = sys_free (Entry a)
                (log_calls [Cleanup_hpc a, Sys_close (child_mem_fd c), Close (desched_fd c),
                            Sys_ptrace_detach (tid c), Sys_free (Entry a)]
                   (s\<lparr>current_entry := ?cur,
                       head := remove1 a (head s),
                       tid_to_entry := (tid_to_entry s)[nat (tid c) := NULL],
                       num_active_threads := num_active_threads s - 1\<rparr>))"
    by (simp add: p)
  then have f: "heap s' = (heap s)(a := None)" "head s' = remove1 a (head s)"
    "tid_to_entry s' = (tid_to_entry s)[nat (tid c) := NULL]"
    "num_active_threads s' = num_active_threads s - 1" "current_entry s' = ?cur"
    by (simp_all add: sys_free_def log_calls_def)
  from idx(2) have slot: "0 \<le> tid c" "nat (tid c) < length (tid_to_entry s)"
    "tid_to_entry s ! nat (tid c) = Entry a"
    by (auto simp: get_entry_def MAX_TID_def split: if_splits)
  have "0 < length (head s)"
    using idx(1) by (cases "head s") auto
  then have len: "Suc (length (remove1 a (head s))) = length (head s)"
    using idx(1) by (simp add: length_remove1)
  have 1: "distinct (head s')"
    using d by (simp add: f)
  have 2: "dom (heap s') = set (head s')"
    using inv d by (auto simp: f sched_inv_def)
  have 3: "get_entry s' (tid x) = Inr (Entry b)"
    if "b \<in> set (head s')" and "heap s' b = Some x" for b x
  proof -
    from that d have "b \<noteq> a" and "heap s b = Some x"
      by (auto simp: f split: if_splits)
    from sched_inv_index(2) [OF inv this(2)]
    have old: "0 \<le> tid x" "tid x < MAX_TID s" "tid_to_entry s ! nat (tid x) = Entry b"
      by (auto simp: get_entry_def split: if_splits)
    with slot(3) \<open>b \<noteq> a\<close> have "nat (tid x) \<noteq> nat (tid c)"
      by auto
    with old show ?thesis
      by (simp add: f get_entry_def MAX_TID_def)
  qed
  have 4: "index_count s' = length (head s')"
    using inv count_set_null [OF slot(2)] slot(3) len
    by (simp add: f index_count_def sched_inv_def)
  have 5: "num_active_threads s' = int (length (head s'))"
    using inv len by (simp add: f sched_inv_def)
  have 6: "current_entry s' = NULL \<or> (\<exists>b\<in>set (head s'). current_entry s' = Entry b)"
  proof (cases "current_entry s = Entry a")
    case True
    show ?thesis
    proof (cases "head s = [a]")
      case sole: True
      with True show ?thesis by (simp add: f)
    next
      case False
      from loop_next_member [OF d idx(1)] obtain b
        where b: "b \<in> set (head s)" "CIRCLEQ_LOOP_NEXT (head s) a = Entry b"
        by auto
      with False loop_next_self [OF d idx(1)] have "b \<noteq> a"
        by auto
      with b True False d show ?thesis
        by (simp add: f)
    qed
  next
    case False
    with inv d show ?thesis
      by (auto simp: f sched_inv_def)
  qed
  from 1 2 3 4 5 6 show ?thesis
    unfolding sched_inv_def by blast
qed

lemma run_calls_inv:
  "sched_inv s \<Longrightarrow> new_tasks w fl cs s \<Longrightarrow> run_calls w fl cs s = Inr s' \<Longrightarrow> sched_inv s'"
proof (induction cs arbitrary: s)
  case Nil
  then show ?case by simp
next
  case (Cons c cs)
  from Cons.prems(3) obtain s1 where s1: "do_call w fl c s = Inr s1"
    and rest: "run_calls w fl cs s1 = Inr s'"
    by (cases "do_call w fl c s") auto
  from Cons.prems(2) s1 have nt: "new_task c s" and nts: "new_tasks w fl cs s1"
    by simp_all
  have "sched_inv s1"
  proof (cases c)
    case (Register e parent child)
    with s1 have reg: "rec_sched_register_thread w fl e parent child s = Inr s1"
      by simp
    from register_result [OF reg] obtain t where "get_entry s child = Inr t"
      by (auto simp: get_entry_def)
    with nt Register have "heap s e = None" and "get_entry s child = Inr NULL"
      by simp_all
    with Cons.prems(1) reg show ?thesis
      by (blast intro: register_inv)
  next
    case (Deregister p)
    with s1 Cons.prems(1) show ?thesis
      by (auto intro: deregister_inv)
  qed
  from Cons.IH [OF this nts rest] show ?case .
qed

lemma run_calls_take:
  "run_calls w fl cs s = Inr s' \<Longrightarrow> new_tasks w fl cs s \<Longrightarrow>
   \<exists>sk. run_calls w fl (take k cs) s = Inr sk \<and> new_tasks w fl (take k cs) s"
proof (induction cs arbitrary: s k)
  case Nil
  then show ?case by simp
next
  case (Cons c cs)
  from Cons.prems(1) obtain s1 where s1: "do_call w fl c s = Inr s1"
    and rest: "run_calls w fl cs s1 = Inr s'"
    by (cases "do_call w fl c s") auto
  from Cons.prems(2) s1 have nt: "new_task c s" and nts: "new_tasks w fl cs s1"
    by simp_all
  show ?case
  proof (cases k)
    case 0
    then show ?thesis by simp
  next
    case (Suc j)
    from Cons.IH [OF rest nts, of j] s1 nt Suc show ?thesis
      by auto
  qed
qed

subsection \<open>Termination of all tasks\<close>

lemma sched_inv_log: "sched_inv (log_calls evs s) = sched_inv s"
  by (simp add: sched_inv_def log_calls_def index_count_def get_entry_def MAX_TID_def)

lemma sched_inv_empty:
  assumes "sched_inv s" and "head s = []"
  shows "s = (sched_init (length (tid_to_entry s)))\<lparr>trace := trace s\<rparr>"
proof -
  from assms have "filter (\<lambda>p. p \<noteq> NULL) (tid_to_entry s) = []"
    by (simp add: sched_inv_def index_count_def)
  then have "\<forall>p\<in>set (tid_to_entry s). p = NULL"
    by (simp add: filter_empty_conv)
  then have "replicate (length (tid_to_entry s)) NULL = tid_to_entry s"
    by (rule replicate_length_same)
  moreover from assms have "heap s = Map.empty" and "current_entry s = NULL"
    and "num_active_threads s = 0"
    by (auto simp: sched_inv_def)
  ultimately show ?thesis
    using assms(2) by (simp add: sched_init_def)
qed

lemma exit_all_result:
  "sched_inv s \<Longrightarrow> head s = q \<Longrightarrow>
   rec_sched_exit_all s =
     Inr ((sched_init (length (tid_to_entry s)))
            \<lparr>trace := trace s @ concat (map (terminate_calls s) q)\<rparr>)"
proof (induction q arbitrary: s)
  case Nil
  from sched_inv_empty [OF Nil] show ?case
    using Nil(2) by (simp add: rec_sched_exit_all.simps CIRCLEQ_EMPTY_def CIRCLEQ_FIRST_def)
next
  case (Cons a q)
  from Cons.prems have d: "distinct (a # q)" and "a \<in> dom (heap s)"
    by (auto simp: sched_inv_def)
  then obtain c where live: "heap s a = Some c"
    by auto
  let ?k = "log_calls [Sys_kill (tid c) SIGINT] s"
  have inv_k: "sched_inv ?k"
    using Cons.prems(1) by (simp add: sched_inv_log)
  have live_k: "heap ?k a = Some c"
    using live by (simp add: log_calls_def)
  obtain s1 where s1: "rec_sched_deregister_thread (Entry a) ?k = Inr s1"
    using deregister_live [OF inv_k live_k] by simp
  from deregister_inv [OF inv_k s1] have inv1: "sched_inv s1" .
  from s1 deregister_live [OF inv_k live_k] Cons.prems(2)
  have f: "head s1 = q" "length (tid_to_entry s1) = length (tid_to_entry s)"
    "trace s1 = trace s @ terminate_calls s a" "heap s1 = (heap s)(a := None)"
    by (auto simp: sys_free_def log_calls_def terminate_calls_def live)
  have "terminate_calls s1 b = terminate_calls s b" if "b \<in> set q" for b
    using that d by (auto simp: terminate_calls_def f(4))
  then have same: "map (terminate_calls s1) q = map (terminate_calls s) q"
    by simp
  have "rec_sched_exit_all s = rec_sched_exit_all s1"
    using Cons.prems(2) live s1
    by (subst rec_sched_exit_all.simps)
      (simp add: CIRCLEQ_EMPTY_def CIRCLEQ_FIRST_def deref_def)
  also have "\<dots> = Inr ((sched_init (length (tid_to_entry s1)))
            \<lparr>trace := trace s1 @ concat (map (terminate_calls s1) q)\<rparr>)"
    using inv1 f(1) by (rule Cons.IH)
  finally show ?case
    by (simp add: f same)
qed

subsection \<open>Choosing a task that is not blocked\<close>

lemma pick_unblocked:
  assumes "current_entry s = Entry a" and "heap s a = Some c"
    and "exec_state c \<noteq> PROCESSING_SYSCALL"
  shows "pick w s = Inr (s, Entry a, Entry a, 0)"
  using assms by (simp add: pick_def deref_def)

lemma get_active_thread_first_call:
  assumes "current_entry (bootstrap s) = Entry a" and "heap s a = Some c"
    and "exec_state c \<noteq> PROCESSING_SYSCALL"
  shows "rec_sched_get_active_thread w fl NULL s =
         Inr (store a (c\<lparr>switch_counter := max_events fl\<rparr>) (s\<lparr>current_entry := Entry a\<rparr>),
              Entry a, 0)"
proof -
  have "heap (bootstrap s) a = Some c"
    using assms(2) by (simp add: bootstrap_fields)
  from pick_unblocked [OF assms(1) this assms(3)]
  have "pick w (bootstrap s) = Inr (bootstrap s, Entry a, Entry a, 0)" .
  moreover have "(bootstrap s)\<lparr>current_entry := Entry a\<rparr> = s\<lparr>current_entry := Entry a\<rparr>"
    by (simp add: bootstrap_def)
  ultimately show ?thesis
    using assms(2)
    by (simp add: rec_sched_get_active_thread_def unswitchable_def prefer_next_def commit_def
        note_switch_def deref_def)
qed

subsection \<open>Going round the queue\<close>

lemma successor_differs:
  assumes "distinct q" and "2 \<le> length q" and "i < length q"
  shows "q ! (Suc i mod length q) \<noteq> q ! i"
proof
  assume eq: "q ! (Suc i mod length q) = q ! i"
  have "0 < length q"
    using assms(3) by linarith
  then have "Suc i mod length q < length q"
    by (rule mod_less_divisor)
  with eq assms(1,3) have m: "Suc i mod length q = i"
    by (simp add: nth_eq_iff_index_eq)
  show False
  proof (cases "Suc i < length q")
    case True
    with m show False by simp
  next
    case False
    with assms(3) have "Suc i = length q" by simp
    with m assms(2) show False by simp
  qed
qed

lemma unblocked_switchable_live:
  assumes "unblocked_switchable s" and "a \<in> set (head s)"
  shows "\<exists>c. heap s a = Some c \<and> exec_state c \<noteq> PROCESSING_SYSCALL \<and> switchable c"
  using assms by (auto simp: unblocked_switchable_def split: option.splits)

lemma preempted_step:
  assumes d: "distinct (head s)" and n: "2 \<le> length (head s)"
    and ok: "unblocked_switchable s"
    and i: "i < length (head s)" and cur: "current_entry s = Entry (head s ! i)"
    and neg: "\<forall>x. used x < 0"
  shows "\<exists>s1. rec_sched_get_active_thread w fl (Entry (head s ! i))
                (run_task used (Entry (head s ! i)) s) =
              Inr (s1, Entry (head s ! (Suc i mod length (head s))), 0) \<and>
            head s1 = head s \<and> unblocked_switchable s1 \<and>
            current_entry s1 = Entry (head s ! (Suc i mod length (head s)))"
proof -
  define a where "a = head s ! i"
  define b where "b = head s ! (Suc i mod length (head s))"
  define m where "m = max_events fl"
  have "0 < length (head s)"
    using i by linarith
  then have "Suc i mod length (head s) < length (head s)"
    by (rule mod_less_divisor)
  then have b_in: "b \<in> set (head s)"
    unfolding b_def by (rule nth_mem)
  have a_in: "a \<in> set (head s)"
    unfolding a_def using i by (rule nth_mem)
  have ba: "b \<noteq> a"
    unfolding a_def b_def using d n i by (rule successor_differs)
  from unblocked_switchable_live [OF ok a_in]
  obtain ca where ca: "heap s a = Some ca" "exec_state ca \<noteq> PROCESSING_SYSCALL"
    "switchable ca"
    by blast
  from unblocked_switchable_live [OF ok b_in]
  obtain cb where cb: "heap s b = Some cb" "exec_state cb \<noteq> PROCESSING_SYSCALL"
    "switchable cb"
    by blast
  define ca' where "ca' = ca\<lparr>switch_counter := used (switch_counter ca)\<rparr>"
  define sr where "sr = store a ca' s"
  have sr: "run_task used (Entry a) s = sr"
    using ca(1) by (simp add: run_task_def deref_def sr_def ca'_def)
  have sr_f: "heap sr = (heap s)(a \<mapsto> ca')" "head sr = head s" "current_entry sr = Entry a"
    using cur by (simp_all add: sr_def store_def a_def)
  have boot: "bootstrap sr = sr"
    by (simp add: bootstrap_def sr_f)
  have unsw: "unswitchable sr (Entry a) = Inr False"
    using ca(3) by (simp add: unswitchable_def deref_def sr_f ca'_def)
  have nxt: "CIRCLEQ_LOOP_NEXT (head s) a = Entry b"
    unfolding a_def b_def using d i by (rule loop_next_nth)
  define s2 where "s2 = store a (ca'\<lparr>switch_counter := m\<rparr>) (sr\<lparr>current_entry := Entry b\<rparr>)"
  have pref: "prefer_next m (Entry a) sr = Inr s2"
    using neg a_in nxt
    by (simp add: prefer_next_def deref_def sr_f ca'_def next_entry_def s2_def)
  have s2_f: "heap s2 = (heap s)(a \<mapsto> ca'\<lparr>switch_counter := m\<rparr>)" "head s2 = head s"
    "current_entry s2 = Entry b"
    by (simp_all add: s2_def store_def sr_f)
  have "heap s2 b = Some cb"
    using ba cb(1) by (simp add: s2_f)
  with s2_f(3) have pk: "pick w s2 = Inr (s2, Entry b, Entry b, 0)"
    using cb(2) by (rule pick_unblocked)
  define s1 where "s1 = store b (cb\<lparr>switch_counter := m\<rparr>) s2"
  have com: "commit m (Entry a) (s2, Entry b, Entry b, 0) = Inr (s1, Entry b, 0)"
    using ba \<open>heap s2 b = Some cb\<close> s2_f(3)
    by (simp add: commit_def note_switch_def deref_def s1_def store_def)
  have call: "rec_sched_get_active_thread w fl (Entry a) sr = Inr (s1, Entry b, 0)"
    using boot unsw pref pk com
    by (simp add: rec_sched_get_active_thread_def m_def)
  have s1_f: "heap s1 = (heap s)(a \<mapsto> ca'\<lparr>switch_counter := m\<rparr>, b \<mapsto> cb\<lparr>switch_counter := m\<rparr>)"
    "head s1 = head s" "current_entry s1 = Entry b"
    by (simp_all add: s1_def store_def s2_f)
  have "unblocked_switchable s1"
    unfolding unblocked_switchable_def
  proof
    fix x assume "x \<in> set (head s1)"
    then have x: "x \<in> set (head s)"
      by (simp add: s1_f)
    from unblocked_switchable_live [OF ok x]
    obtain cx where "heap s x = Some cx" "exec_state cx \<noteq> PROCESSING_SYSCALL"
      "switchable cx"
      by blast
    with ca cb show "case heap s1 x of None \<Rightarrow> False
         | Some c \<Rightarrow> exec_state c \<noteq> PROCESSING_SYSCALL \<and> switchable c"
      by (simp add: s1_f ca'_def)
  qed
  with call sr s1_f show ?thesis
    by (simp add: a_def b_def)
qed

lemma preempted_rounds:
  assumes neg: "\<forall>x. used x < 0"
  shows "distinct (head s) \<Longrightarrow> 2 \<le> length (head s) \<Longrightarrow> unblocked_switchable s \<Longrightarrow>
    i < length (head s) \<Longrightarrow> current_entry s = Entry (head s ! i) \<Longrightarrow>
    \<exists>s'. schedule_repeatedly w fl used k (Entry (head s ! i)) s =
      Inr (s', map (\<lambda>j. Entry (head s ! ((i + Suc j) mod length (head s)))) [0..<k])"
proof (induction k arbitrary: s i)
  case 0
  show ?case by simp
next
  case (Suc k)
  define n where "n = length (head s)"
  define i' where "i' = Suc i mod n"
  from preempted_step [OF Suc.prems neg, of w fl] obtain s1
    where call: "rec_sched_get_active_thread w fl (Entry (head s ! i))
                (run_task used (Entry (head s ! i)) s) = Inr (s1, Entry (head s ! i'), 0)"
      and q: "head s1 = head s" and ok1: "unblocked_switchable s1"
      and cur1: "current_entry s1 = Entry (head s ! i')"
    by (auto simp: i'_def n_def)
  have "0 < n"
    unfolding n_def using Suc.prems(4) by linarith
  then have i'_lt: "i' < length (head s1)"
    by (simp add: i'_def q n_def)
  from Suc.IH [of s1 i'] Suc.prems(1,2) ok1 i'_lt cur1 q obtain s'
    where rest: "schedule_repeatedly w fl used k (Entry (head s ! i')) s1 =
      Inr (s', map (\<lambda>j. Entry (head s ! ((i' + Suc j) mod n))) [0..<k])"
    by (auto simp: n_def)
  have "(i' + Suc j) mod n = (i + Suc (Suc j)) mod n" for j
  proof -
    have "(Suc i mod n + Suc j) mod n = (Suc i + Suc j) mod n"
      by (rule mod_add_left_eq)
    then show ?thesis
      by (simp add: i'_def)
  qed
  then have "map (\<lambda>j. Entry (head s ! ((i' + Suc j) mod n))) [0..<k] =
             map (\<lambda>j. Entry (head s ! ((i + Suc (Suc j)) mod n))) [0..<k]"
    by simp
  moreover have "Entry (head s ! i') = Entry (head s ! ((i + Suc 0) mod n))"
    by (simp add: i'_def)
  ultimately have "Entry (head s ! i') # map (\<lambda>j. Entry (head s ! ((i' + Suc j) mod n))) [0..<k] =
        map (\<lambda>j. Entry (head s ! ((i + Suc j) mod n))) [0..<Suc k]"
    by (simp only: map_upt_Suc)
  with call rest show ?case
    by (simp add: n_def)
qed

subsection \<open>The bound of the scan is not reached on a proper queue\<close>

lemma scan_loop_within_bound:
  "distinct (head s) \<Longrightarrow> i < length (head s) \<Longrightarrow> current_entry s = Entry (head s ! i) \<Longrightarrow>
   j < length (head s) \<Longrightarrow> length (head s) - j \<le> k \<Longrightarrow>
   scan_loop w k (Entry (head s ! ((i + j) mod length (head s)))) s \<noteq> Inl Corrupt_queue"
proof (induction k arbitrary: j s)
  case 0
  then show ?case by simp
next
  case (Suc k)
  let ?n = "length (head s)"
  let ?p = "(i + j) mod ?n"
  have n: "0 < ?n"
    using Suc.prems(2) by linarith
  then have p: "?p < ?n"
    by (rule mod_less_divisor)
  show ?case
  proof (cases "deref s (Entry (head s ! ?p))")
    case (Inl e)
    then have "e \<noteq> Corrupt_queue"
      by (auto simp: deref_def split: option.splits)
    with Inl show ?thesis
      by simp
  next
    case (Inr r)
    obtain a c where r: "r = (a, c)"
      by (cases r) auto
    show ?thesis
    proof (cases "exec_state c \<noteq> PROCESSING_SYSCALL")
      case True
      with Inr r show ?thesis by simp
    next
      case False
      note blocked = this
      show ?thesis
      proof (cases "sys_waitpid_nonblock w (tid c)")
        case (Some st)
        with Inr r blocked show ?thesis by simp
      next
        case None
        let ?s = "log_calls [Sys_waitpid_nonblock (tid c)] s"
        have "head s ! ?p \<in> set (head s)"
          using p by (rule nth_mem)
        then have nx: "next_entry s (Entry (head s ! ?p)) =
                   Inr (Entry (head s ! (Suc ?p mod ?n)))"
          using loop_next_nth [OF Suc.prems(1) p] by (simp add: next_entry_def)
        have step: "Suc ?p mod ?n = (i + Suc j) mod ?n"
          by (simp add: mod_Suc_eq)
        show ?thesis
        proof (cases "Entry (head s ! ((i + Suc j) mod ?n)) \<noteq> current_entry s")
          case True
          have "Suc j \<noteq> ?n"
          proof
            assume "Suc j = ?n"
            then have "(i + Suc j) mod ?n = i"
              using Suc.prems(2) by simp
            with True Suc.prems(3) show False
              by simp
          qed
          with Suc.prems(4) have j': "Suc j < ?n"
            by simp
          with Suc.prems(5) have k': "?n - Suc j \<le> k"
            by simp
          have f: "head ?s = head s" "current_entry ?s = current_entry s"
            by (simp_all add: log_calls_def)
          from Suc.IH [of ?s "Suc j"] Suc.prems(1,2,3) j' k'
          have "scan_loop w k (Entry (head s ! ((i + Suc j) mod ?n))) ?s \<noteq> Inl Corrupt_queue"
            by (simp add: f)
          with Inr r blocked None nx step True show ?thesis
            by simp
        next
          case False
          with Inr r blocked None nx step show ?thesis
            by simp
        qed
      qed
    qed
  qed
qed

lemma pick_within_bound:
  assumes "distinct (head s)"
    and "\<forall>a. current_entry s = Entry a \<longrightarrow> a \<in> set (head s)"
  shows "pick w s \<noteq> Inl Corrupt_queue"
proof -
  let ?scan = "scan_loop w (Suc (length (head s))) (current_entry s) s"
  have scan: "?scan \<noteq> Inl Corrupt_queue"
  proof (cases "current_entry s")
    case NULL
    then show ?thesis by (simp add: deref_def)
  next
    case Queue_head
    then show ?thesis by (simp add: deref_def)
  next
    case (Entry a)
    with assms(2) obtain i where i: "i < length (head s)" "head s ! i = a"
      by (auto simp: in_set_conv_nth)
    with Entry have cur: "current_entry s = Entry (head s ! i)"
      by simp
    have "0 < length (head s)"
      using i(1) by linarith
    moreover have "length (head s) - 0 \<le> Suc (length (head s))"
      by simp
    ultimately
    have "scan_loop w (Suc (length (head s)))
            (Entry (head s ! ((i + 0) mod length (head s)))) s \<noteq> Inl Corrupt_queue"
      using assms(1) i(1) cur by (intro scan_loop_within_bound)
    with i Entry show ?thesis
      by (simp del: scan_loop.simps)
  qed
  have wait: "wait_for_runnable w s' \<noteq> Inl Corrupt_queue" for s'
  proof -
    have "waitpid_loop rs m \<noteq> Inl Corrupt_queue" for rs m
      by (induction rs m rule: waitpid_loop.induct) auto
    then show ?thesis
      by (auto simp: wait_for_runnable_def get_entry_def deref_def
          split: sum.splits prod.splits ptr.splits option.splits)
  qed
  show ?thesis
  proof (cases ?scan)
    case (Inl e)
    with scan show ?thesis
      by (auto simp: pick_def)
  next
    case (Inr r)
    with wait show ?thesis
      by (auto simp: pick_def split: prod.splits)
  qed
qed

lemma get_active_thread_within_bound:
  assumes "distinct (head s)"
    and "\<forall>a. current_entry s = Entry a \<longrightarrow> a \<in> set (head s)"
  shows "rec_sched_get_active_thread w fl ctx s \<noteq> Inl Corrupt_queue"
proof (cases "unswitchable (bootstrap s) ctx")
  case (Inl e)
  then have "e \<noteq> Corrupt_queue"
    by (auto simp: unswitchable_def deref_def split: if_splits ptr.splits option.splits)
  with Inl show ?thesis
    by (simp add: rec_sched_get_active_thread_def)
next
  case (Inr u)
  show ?thesis
  proof (cases u)
    case True
    with Inr show ?thesis
      by (simp add: rec_sched_get_active_thread_def)
  next
    case False
    have boot: "\<forall>a. current_entry (bootstrap s) = Entry a \<longrightarrow> a \<in> set (head s)"
      using assms(2) by (auto simp: bootstrap_def CIRCLEQ_FIRST_def split: list.splits)
    show ?thesis
    proof (cases "prefer_next (max_events fl) ctx (bootstrap s)")
      case (Inl e)
      then have "e \<noteq> Corrupt_queue"
        by (auto simp: prefer_next_def deref_def next_entry_def
            split: if_splits ptr.splits option.splits sum.splits)
      with Inl Inr False show ?thesis
        by (simp add: rec_sched_get_active_thread_def)
    next
      case s2: (Inr s2)
      have h: "head s2 = head s"
        using prefer_next_fields(1) [OF s2] by (simp add: bootstrap_fields)
      have "\<forall>a. current_entry s2 = Entry a \<longrightarrow> a \<in> set (head s2)"
      proof (intro allI impI)
        fix a assume a: "current_entry s2 = Entry a"
        show "a \<in> set (head s2)"
        proof (cases "current_entry s2 = current_entry (bootstrap s)")
          case True
          with a boot h show ?thesis by simp
        next
          case False
          with s2 obtain e where "e \<in> set (head s)"
            and "current_entry s2 = CIRCLEQ_LOOP_NEXT (head s) e"
            by (auto simp: prefer_next_def store_def deref_eq_Inr next_entry_def
                bootstrap_fields split: if_splits sum.splits ptr.splits)
          with loop_next_member [OF assms(1) this(1)] a h show ?thesis
            by auto
        qed
      qed
      with assms(1) h have "pick w s2 \<noteq> Inl Corrupt_queue"
        by (simp add: pick_within_bound)
      moreover have "commit m ctx r \<noteq> Inl Corrupt_queue" for m r
        by (auto simp: commit_def note_switch_def deref_def
            split: prod.splits sum.splits ptr.splits option.splits if_splits)
      ultimately show ?thesis
        using Inr False s2
        by (auto simp: rec_sched_get_active_thread_def split: sum.splits)
    qed
  qed
qed

lemma reselected_step:
  assumes "current_entry s = Entry a" and "heap s a = Some c"
    and "exec_state c \<noteq> PROCESSING_SYSCALL" and "switchable c" and "0 \<le> switch_counter c"
  shows "rec_sched_get_active_thread w fl (Entry a) s =
         Inr (store a (c\<lparr>switch_counter := switch_counter c - 1\<rparr>) s, Entry a, 0)"
proof -
  have boot: "bootstrap s = s"
    using assms(1) by (simp add: bootstrap_def)
  have "unswitchable s (Entry a) = Inr False"
    using assms(2,4) by (simp add: unswitchable_def deref_def)
  moreover have "prefer_next (max_events fl) (Entry a) s = Inr s"
    using assms(2,5) by (simp add: prefer_next_def deref_def)
  moreover have "pick w s = Inr (s, Entry a, Entry a, 0)"
    using assms(1,2,3) by (rule pick_unblocked)
  moreover have "s\<lparr>current_entry := Entry a\<rparr> = s"
    using assms(1) by simp
  then have "commit (max_events fl) (Entry a) (s, Entry a, Entry a, 0) =
        Inr (store a (c\<lparr>switch_counter := switch_counter c - 1\<rparr>) s, Entry a, 0)"
    using assms(2,5) by (simp add: commit_def note_switch_def deref_def INT_MIN_def)
  ultimately show ?thesis
    by (simp add: rec_sched_get_active_thread_def boot)
qed

section \<open>The claims\<close>

subsection \<open>C1\<close>

text \<open>
  C1. A call of \<open>rec_sched_get_active_thread\<close> that returns without taking the
  un-switchable exit went through the preference for the next task and the choice of a
  task (\<open>pick\<close>), which left a state \<open>sp\<close>, and then committed: the state returned is
  \<open>sp\<close> with the cursor on the chosen task and the chosen task's \<open>switch_counter\<close> one
  less than in \<open>sp\<close> when the chosen task is \<open>ctx\<close>, and \<open>max_events\<close> otherwise.
  Nothing else differs from \<open>sp\<close>, so the commit changes no other task.
\<close>

theorem commit_accounts_budget:
  assumes "rec_sched_get_active_thread w fl ctx s = Inr (s', chosen, bw)"
    and "unswitchable s ctx = Inr False"
  shows "\<exists>s2 sp a c.
           prefer_next (max_events fl) ctx (bootstrap s) = Inr s2 \<and>
           pick w s2 = Inr (sp, chosen, chosen, bw) \<and>
           chosen = Entry a \<and> heap sp a = Some c \<and>
           s' = store a
                  (c\<lparr>switch_counter :=
                       if ctx = chosen then switch_counter c - 1 else max_events fl\<rparr>)
                  (sp\<lparr>current_entry := chosen\<rparr>)"
proof -
  from get_active_thread_steps [OF assms] obtain s2 sp a c
    where s2: "prefer_next (max_events fl) ctx (bootstrap s) = Inr s2"
      and p: "pick w s2 = Inr (sp, Entry a, Entry a, bw)" and ch: "chosen = Entry a"
      and c: "heap sp a = Some c"
      and n: "note_switch ctx (Entry a) (max_events fl) (sp\<lparr>current_entry := Entry a\<rparr>) = Inr s'"
    by auto
  from c have "heap (sp\<lparr>current_entry := Entry a\<rparr>) a = Some c"
    by simp
  from note_switch_result [OF n this] s2 p ch c show ?thesis
    by auto
qed

theorem commit_accounts_budget_witness:
  "rec_sched_get_active_thread env0 flags10 (Entry 1) (a_current True 3) =
     Inr (a_current True 2, Entry 1, 0) \<and>
   unswitchable (a_current True 3) (Entry 1) = Inr False \<and>
   (\<exists>s2 sp a c.
      prefer_next (max_events flags10) (Entry 1) (bootstrap (a_current True 3)) = Inr s2 \<and>
      pick env0 s2 = Inr (sp, Entry 1, Entry 1, 0) \<and>
      Entry 1 = Entry a \<and> heap sp a = Some c \<and>
      a_current True 2 =
        store a
          (c\<lparr>switch_counter :=
               if Entry 1 = Entry 1 then switch_counter c - 1 else max_events flags10\<rparr>)
          (sp\<lparr>current_entry := Entry 1\<rparr>))"
proof -
  have call: "rec_sched_get_active_thread env0 flags10 (Entry 1) (a_current True 3) =
     Inr (a_current True 2, Entry 1, 0)"
    by (simp add: rec_sched_get_active_thread_def a_current_def abc_def fresh_task_def
        store_def bootstrap_def unswitchable_def deref_def prefer_next_def pick_def
        commit_def note_switch_def flags10_def env0_def INT_MIN_def)
  have sw: "unswitchable (a_current True 3) (Entry 1) = Inr False"
    by (simp add: a_current_def abc_def fresh_task_def store_def unswitchable_def deref_def)
  from commit_accounts_budget [OF call sw] call sw show ?thesis
    by simp
qed

subsection \<open>C2\<close>

text \<open>
  C2. A call of \<open>rec_sched_get_active_thread\<close> with a \<open>ctx\<close> that is not switchable
  returns that \<open>ctx\<close> with \<open>*by_waitpid = 0\<close>, whatever the queue holds. The state
  it leaves differs from the one it found in the cursor at most, which the bootstrap
  sets when it was null: no task is changed and no call to the wait backend is traced.
\<close>

theorem unswitchable_returned_unchanged:
  assumes "deref s ctx = Inr (a, c)" and "\<not> switchable c"
  shows "rec_sched_get_active_thread w fl ctx s =
         Inr (s\<lparr>current_entry :=
                  if current_entry s = NULL then CIRCLEQ_FIRST (head s) else current_entry s\<rparr>,
              ctx, 0)"
proof -
  have "deref (bootstrap s) ctx = Inr (a, c)"
    using assms(1) deref_same_heap [of "bootstrap s" s ctx] by (simp add: bootstrap_fields)
  moreover have "ctx \<noteq> NULL"
    using assms(1) by (auto simp: deref_eq_Inr)
  ultimately have "unswitchable (bootstrap s) ctx = Inr True"
    using assms(2) by (simp add: unswitchable_def)
  then have "rec_sched_get_active_thread w fl ctx s = Inr (bootstrap s, ctx, 0)"
    by (simp add: rec_sched_get_active_thread_def)
  then show ?thesis
    by (simp add: bootstrap_def)
qed

theorem unswitchable_returned_unchanged_witness:
  "deref abc (Entry 2) = Inr (2, fresh_task 6) \<and> \<not> switchable (fresh_task 6) \<and>
   rec_sched_get_active_thread env0 flags10 (Entry 2) abc =
     Inr (abc\<lparr>current_entry := Entry 1\<rparr>, Entry 2, 0)"
  using unswitchable_returned_unchanged [of abc "Entry 2" 2 "fresh_task 6" env0 flags10]
  by (simp add: deref_def abc_def fresh_task_def CIRCLEQ_FIRST_def)

subsection \<open>C3\<close>

text \<open>
  C3. The claim holds for a \<open>ctx\<close> that is switchable; for one that is not, the call
  has returned before it looks at the counter. At \<open>a_current False (- 1)\<close> task A is
  the cursor's task, is not switchable and has the counter \<open>- 1\<close>: the call returns A
  and leaves the state as it was, cursor and counter included.
\<close>

theorem exceeded_unswitchable_counterexample:
  "rec_sched_get_active_thread env0 flags10 (Entry 1) (a_current False (- 1)) =
     Inr (a_current False (- 1), Entry 1, 0)"
  by (simp add: rec_sched_get_active_thread_def a_current_def abc_def fresh_task_def
      store_def bootstrap_def unswitchable_def deref_def)

text \<open>
  C3, amended. A call that returns, for a \<open>ctx\<close> that is switchable and has a negative
  \<open>switch_counter\<close>: the cursor was on an entry \<open>e\<close> of the queue, and the task was
  picked from the state in which the cursor is the successor of \<open>e\<close> and the counter of
  \<open>ctx\<close> is \<open>max_events\<close>. In the state returned the counter of \<open>ctx\<close> is
  \<open>max_events\<close> when another task was chosen, and that task's counter is
  \<open>max_events\<close> as well; it is \<open>max_events - 1\<close> when \<open>ctx\<close> was chosen again.
  In particular, with A, B and C registered in that order, A the cursor's task,
  switchable and with the counter \<open>- 1\<close>, and B and C runnable, the call with A and
  \<open>max_events = 10\<close> returns B and leaves the counters of A and B at 10.
\<close>

theorem exceeded_budget_prefers_next:
  "(\<forall>w fl a s s' chosen bw c.
      rec_sched_get_active_thread w fl (Entry a) s = Inr (s', chosen, bw) \<and>
      heap s a = Some c \<and> switchable c \<and> switch_counter c < 0 \<longrightarrow>
      (\<exists>e c'.
         current_entry (bootstrap s) = Entry e \<and> e \<in> set (head s) \<and>
         (\<exists>sp. pick w (store a (c\<lparr>switch_counter := max_events fl\<rparr>)
                         (s\<lparr>current_entry := CIRCLEQ_LOOP_NEXT (head s) e\<rparr>)) =
                 Inr (sp, chosen, chosen, bw)) \<and>
         heap s' a = Some c' \<and>
         switch_counter c' =
           (if chosen = Entry a then max_events fl - 1 else max_events fl) \<and>
         (\<exists>b d. chosen = Entry b \<and> heap s' b = Some d \<and>
            (b \<noteq> a \<longrightarrow> switch_counter d = max_events fl)))) \<and>
   rec_sched_get_active_thread env0 flags10 (Entry 1) (a_current True (- 1)) =
     Inr (b_chosen, Entry 2, 0) \<and>
   map_option switch_counter (heap b_chosen 1) = Some 10 \<and>
   map_option switch_counter (heap b_chosen 2) = Some 10"
proof (intro conjI allI impI)
  fix w fl a s s' chosen bw c
  assume "rec_sched_get_active_thread w fl (Entry a) s = Inr (s', chosen, bw) \<and>
      heap s a = Some c \<and> switchable c \<and> switch_counter c < 0"
  then show "\<exists>e c'.
         current_entry (bootstrap s) = Entry e \<and> e \<in> set (head s) \<and>
         (\<exists>sp. pick w (store a (c\<lparr>switch_counter := max_events fl\<rparr>)
                         (s\<lparr>current_entry := CIRCLEQ_LOOP_NEXT (head s) e\<rparr>)) =
                 Inr (sp, chosen, chosen, bw)) \<and>
         heap s' a = Some c' \<and>
         switch_counter c' =
           (if chosen = Entry a then max_events fl - 1 else max_events fl) \<and>
         (\<exists>b d. chosen = Entry b \<and> heap s' b = Some d \<and>
            (b \<noteq> a \<longrightarrow> switch_counter d = max_events fl))"
    using prefer_next_then_pick [of w fl a s s' chosen bw c] by blast
next
  show "rec_sched_get_active_thread env0 flags10 (Entry 1) (a_current True (- 1)) =
     Inr (b_chosen, Entry 2, 0)"
    by (simp add: rec_sched_get_active_thread_def a_current_def b_chosen_def abc_def
        fresh_task_def store_def bootstrap_def unswitchable_def deref_def prefer_next_def
        next_entry_def CIRCLEQ_LOOP_NEXT_def cqe_next_def pick_def commit_def note_switch_def
        flags10_def env0_def fun_upd_twist)
next
  show "map_option switch_counter (heap b_chosen 1) = Some 10"
    by (simp add: b_chosen_def store_def)
next
  show "map_option switch_counter (heap b_chosen 2) = Some 10"
    by (simp add: b_chosen_def store_def)
qed

theorem exceeded_budget_prefers_next_witness:
  "rec_sched_get_active_thread env0 flags10 (Entry 1) (a_current True (- 1)) =
     Inr (b_chosen, Entry 2, 0) \<and>
   heap (a_current True (- 1)) 1 =
     Some ((fresh_task 5)\<lparr>switchable := True, switch_counter := - 1\<rparr>) \<and>
   (\<exists>e c'.
      current_entry (bootstrap (a_current True (- 1))) = Entry e \<and>
      e \<in> set (head (a_current True (- 1))) \<and>
      heap b_chosen 1 = Some c' \<and> switch_counter c' = max_events flags10)"
proof -
  let ?c = "(fresh_task 5)\<lparr>switchable := True, switch_counter := - 1\<rparr>"
  have call: "rec_sched_get_active_thread env0 flags10 (Entry 1) (a_current True (- 1)) =
     Inr (b_chosen, Entry 2, 0)"
    using exceeded_budget_prefers_next by blast
  have live: "heap (a_current True (- 1)) 1 = Some ?c"
    by (simp add: a_current_def store_def)
  have "switchable ?c" and "switch_counter ?c < 0"
    by simp_all
  with exceeded_budget_prefers_next call live
  have "\<exists>e c'.
      current_entry (bootstrap (a_current True (- 1))) = Entry e \<and>
      e \<in> set (head (a_current True (- 1))) \<and>
      heap b_chosen 1 = Some c' \<and>
      switch_counter c' =
        (if Entry 2 = Entry (1::nat) then max_events flags10 - 1 else max_events flags10)"
    by blast
  with call live show ?thesis
    by simp
qed

subsection \<open>C4\<close>

text \<open>
  C4. The claim fails: the code looks the reported task id up with \<open>get_entry\<close> and
  uses the result unchecked. At \<open>all_blocked\<close> every task is processing a syscall and
  no poll reports a change, so the blocking wait is reached; it reports the task id 4,
  whose index slot is null, and the write to \<open>next_ctx->status\<close> goes through a null
  pointer. No diagnostic is issued.
\<close>

theorem unknown_waited_tid_counterexample:
  "rec_sched_get_active_thread env_stranger flags10 NULL all_blocked = Inl Null_dereference"
  by (simp add: rec_sched_get_active_thread_def all_blocked_def abc_def fresh_task_def
      bootstrap_def CIRCLEQ_FIRST_def unswitchable_def prefer_next_def pick_def deref_def
      next_entry_def CIRCLEQ_LOOP_NEXT_def cqe_next_def log_calls_def
      wait_for_runnable_def get_entry_def MAX_TID_def env_stranger_def env0_def)

text \<open>
  C4, amended. When the scan leaves \<open>next_ctx\<close> null and the blocking wait returns a
  task id \<open>t\<close>, nothing checks the lookup of \<open>t\<close>: with a null index slot the call
  dereferences a null pointer, and with \<open>t\<close> outside the index it reads
  \<open>tid_to_entry\<close> out of bounds. Neither is an abort with a diagnostic; the one \<open>fatal\<close>
  of this path is for a \<open>waitpid\<close> that fails.
\<close>

theorem unknown_waited_tid_unchecked:
  assumes "unswitchable s ctx = Inr False"
    and "prefer_next (max_events fl) ctx (bootstrap s) = Inr s2"
    and "scan_loop w (Suc (length (head s2))) (current_entry s2) s2 = Inr (s3, entry, NULL, b)"
    and "waitpid_loop (waitpid w) 0 = Inr (t, st, n)"
    and "get_entry s t = Inr NULL \<or> get_entry s t = Inl Out_of_bounds"
  shows "rec_sched_get_active_thread w fl ctx s =
         Inl (if get_entry s t = Inr NULL then Null_dereference else Out_of_bounds)"
proof -
  have "tid_to_entry s3 = tid_to_entry s2"
    using scan_loop_result [OF assms(3)] by (simp add: only_status_written_def)
  also have "\<dots> = tid_to_entry s"
    using prefer_next_fields(2) [OF assms(2)] by (simp add: bootstrap_fields)
  finally have "get_entry s3 t = get_entry s t"
    by (rule get_entry_same_index)
  with assms(4,5)
  have "wait_for_runnable w s3 =
        Inl (if get_entry s t = Inr NULL then Null_dereference else Out_of_bounds)"
    by (auto simp: wait_for_runnable_def deref_def)
  with assms(3) have "pick w s2 =
        Inl (if get_entry s t = Inr NULL then Null_dereference else Out_of_bounds)"
    by (simp add: pick_def)
  with assms(1,2) show ?thesis
    by (simp add: rec_sched_get_active_thread_def unswitchable_bootstrap)
qed

theorem unknown_waited_tid_unchecked_witness:
  "unswitchable all_blocked NULL = Inr False \<and>
   prefer_next (max_events flags10) NULL (bootstrap all_blocked) = Inr (bootstrap all_blocked) \<and>
   scan_loop env_stranger (Suc (length (head (bootstrap all_blocked))))
       (current_entry (bootstrap all_blocked)) (bootstrap all_blocked) =
     Inr (log_calls [Sys_waitpid_nonblock 5, Sys_waitpid_nonblock 6, Sys_waitpid_nonblock 7]
            (bootstrap all_blocked), Entry 1, NULL, 0) \<and>
   waitpid_loop (waitpid env_stranger) 0 = Inr (4, 1407, 1) \<and>
   get_entry all_blocked 4 = Inr NULL \<and>
   rec_sched_get_active_thread env_stranger flags10 NULL all_blocked = Inl Null_dereference"
proof -
  have 1: "unswitchable all_blocked NULL = Inr False"
    by (simp add: unswitchable_def)
  have 2: "prefer_next (max_events flags10) NULL (bootstrap all_blocked) =
           Inr (bootstrap all_blocked)"
    by (simp add: prefer_next_def)
  have 3: "scan_loop env_stranger (Suc (length (head (bootstrap all_blocked))))
       (current_entry (bootstrap all_blocked)) (bootstrap all_blocked) =
     Inr (log_calls [Sys_waitpid_nonblock 5, Sys_waitpid_nonblock 6, Sys_waitpid_nonblock 7]
            (bootstrap all_blocked), Entry 1, NULL, 0)"
    by (simp add: all_blocked_def abc_def fresh_task_def bootstrap_def CIRCLEQ_FIRST_def
        deref_def next_entry_def CIRCLEQ_LOOP_NEXT_def cqe_next_def log_calls_def
        env_stranger_def env0_def)
  have 4: "waitpid_loop (waitpid env_stranger) 0 = Inr (4, 1407, 1)"
    by (simp add: env_stranger_def env0_def)
  have 5: "get_entry all_blocked 4 = Inr NULL"
    by (simp add: get_entry_def MAX_TID_def all_blocked_def abc_def)
  from 5 have "get_entry all_blocked 4 = Inr NULL \<or> get_entry all_blocked 4 = Inl Out_of_bounds"
    by simp
  from unknown_waited_tid_unchecked [OF 1 2 3 4 this] 1 2 3 4 5 show ?thesis
    by simp
qed

subsection \<open>C5\<close>

text \<open>
  C5. The claim fails: while the cursor's task is not blocked and its counter is not
  negative, \<open>rec_sched_get_active_thread\<close> chooses it again. With A, B and C
  switchable and never blocked, three calls in a row, each with the task chosen before
  as \<open>ctx\<close> and the counters left as they are, choose A three times; the counter of A
  goes from 10 to 8 and B and C are never chosen.
\<close>

theorem same_task_again_counterexample:
  "schedule_repeatedly env0 flags10 id 3 NULL switchable_abc =
     Inr (a_thrice, [Entry 1, Entry 1, Entry 1])"
  by (simp add: eval_nat_numeral run_task_def rec_sched_get_active_thread_def
      switchable_abc_def a_thrice_def abc_def fresh_task_def
      store_def bootstrap_def CIRCLEQ_FIRST_def unswitchable_def deref_def prefer_next_def
      pick_def commit_def note_switch_def flags10_def env0_def INT_MIN_def fun_eq_iff)

text \<open>
  C5, amended. Take a queue of at least two entries, each of them live, never blocked
  and switchable, with the cursor on the entry at position \<open>i\<close>. A call with the
  cursor's task as \<open>ctx\<close> chooses that task again when its counter is not negative.
  When every call is made with the task chosen before as \<open>ctx\<close>, after that task has
  run its counter below zero, then as many calls as the queue has entries choose every
  task once: the tasks chosen are the queue, in its order, from the successor of the
  cursor's entry round to that entry.
\<close>

theorem round_robin_after_budget_exceeded:
  assumes "distinct (head s)" and "2 \<le> length (head s)" and "unblocked_switchable s"
    and "i < length (head s)" and "current_entry s = Entry (head s ! i)"
  shows "(\<forall>c. heap s (head s ! i) = Some c \<and> 0 \<le> switch_counter c \<longrightarrow>
            (\<exists>s'. rec_sched_get_active_thread w fl (Entry (head s ! i)) s =
                    Inr (s', Entry (head s ! i), 0))) \<and>
         ((\<forall>x. used x < 0) \<longrightarrow>
            (\<exists>s' chosen.
               schedule_repeatedly w fl used (length (head s)) (Entry (head s ! i)) s =
                 Inr (s', chosen) \<and>
               chosen = map Entry (rotate (Suc i) (head s)) \<and>
               distinct chosen \<and> set chosen = Entry ` set (head s)))"
proof (intro conjI allI impI)
  fix c assume c: "heap s (head s ! i) = Some c \<and> 0 \<le> switch_counter c"
  have "head s ! i \<in> set (head s)"
    using assms(4) by (rule nth_mem)
  from unblocked_switchable_live [OF assms(3) this] c
  have "exec_state c \<noteq> PROCESSING_SYSCALL" and "switchable c"
    by auto
  with assms(5) c
  show "\<exists>s'. rec_sched_get_active_thread w fl (Entry (head s ! i)) s =
               Inr (s', Entry (head s ! i), 0)"
    by (simp add: reselected_step)
next
  assume neg: "\<forall>x. used x < 0"
  let ?n = "length (head s)"
  from preempted_rounds [OF neg assms, of w fl ?n] obtain s'
    where run: "schedule_repeatedly w fl used ?n (Entry (head s ! i)) s =
      Inr (s', map (\<lambda>j. Entry (head s ! ((i + Suc j) mod ?n))) [0..<?n])"
    by auto
  have rot: "map (\<lambda>j. head s ! ((i + Suc j) mod ?n)) [0..<?n] = rotate (Suc i) (head s)"
  proof (rule nth_equalityI)
    show "length (map (\<lambda>j. head s ! ((i + Suc j) mod ?n)) [0..<?n]) =
          length (rotate (Suc i) (head s))"
      by simp
  next
    fix j assume "j < length (map (\<lambda>j. head s ! ((i + Suc j) mod ?n)) [0..<?n])"
    then have j: "j < ?n"
      by simp
    then have "rotate (Suc i) (head s) ! j = head s ! ((Suc i + j) mod ?n)"
      by (rule nth_rotate)
    with j show "map (\<lambda>j. head s ! ((i + Suc j) mod ?n)) [0..<?n] ! j =
                 rotate (Suc i) (head s) ! j"
      by (simp del: rotate_Suc)
  qed
  have "map (\<lambda>j. Entry (head s ! ((i + Suc j) mod ?n))) [0..<?n] =
        map Entry (map (\<lambda>j. head s ! ((i + Suc j) mod ?n)) [0..<?n])"
    by (simp add: comp_def)
  also have "\<dots> = map Entry (rotate (Suc i) (head s))"
    by (simp only: rot)
  finally have "map (\<lambda>j. Entry (head s ! ((i + Suc j) mod ?n))) [0..<?n] =
             map Entry (rotate (Suc i) (head s))" .
  with run have "schedule_repeatedly w fl used ?n (Entry (head s ! i)) s =
      Inr (s', map Entry (rotate (Suc i) (head s)))"
    by simp
  moreover have "distinct (map Entry (rotate (Suc i) (head s)))"
    using assms(1) by (simp add: distinct_map inj_on_def)
  moreover have "set (map Entry (rotate (Suc i) (head s))) = Entry ` set (head s)"
    by simp
  ultimately show "\<exists>s' chosen.
               schedule_repeatedly w fl used (length (head s)) (Entry (head s ! i)) s =
                 Inr (s', chosen) \<and>
               chosen = map Entry (rotate (Suc i) (head s)) \<and>
               distinct chosen \<and> set chosen = Entry ` set (head s)"
    by blast
qed

theorem round_robin_after_budget_exceeded_witness:
  "distinct (head a_thrice) \<and> 2 \<le> length (head a_thrice) \<and> unblocked_switchable a_thrice \<and>
   0 < length (head a_thrice) \<and> current_entry a_thrice = Entry (head a_thrice ! 0) \<and>
   (\<forall>x. overrun x < 0) \<and>
   (\<exists>s'. schedule_repeatedly env0 flags10 overrun 3 (Entry 1) a_thrice =
      Inr (s', [Entry 2, Entry 3, Entry 1])) \<and>
   (\<exists>s'. rec_sched_get_active_thread env0 flags10 (Entry 1) a_thrice = Inr (s', Entry 1, 0))"
proof -
  have q: "head a_thrice = [1, 2, 3]"
    by (simp add: a_thrice_def switchable_abc_def abc_def store_def)
  have 1: "distinct (head a_thrice)" and 2: "2 \<le> length (head a_thrice)"
    and 4: "0 < length (head a_thrice)"
    by (simp_all add: q)
  have 3: "unblocked_switchable a_thrice"
    by (simp add: unblocked_switchable_def q)
      (simp add: a_thrice_def switchable_abc_def abc_def store_def fresh_task_def)
  have 5: "current_entry a_thrice = Entry (head a_thrice ! 0)"
    by (simp add: q) (simp add: a_thrice_def store_def)
  have 6: "\<forall>x. overrun x < 0"
    by (simp add: overrun_def)
  have 7: "heap a_thrice 1 = Some ((fresh_task 5)\<lparr>switchable := True, switch_counter := 8\<rparr>)"
    by (simp add: a_thrice_def store_def)
  note th = round_robin_after_budget_exceeded [OF 1 2 3 4 5, of env0 flags10 overrun]
  from th 6 have "\<exists>s'. schedule_repeatedly env0 flags10 overrun 3 (Entry 1) a_thrice =
      Inr (s', [Entry 2, Entry 3, Entry 1])"
    by (simp add: q eval_nat_numeral)
  moreover from th 7
  have "\<exists>s'. rec_sched_get_active_thread env0 flags10 (Entry 1) a_thrice = Inr (s', Entry 1, 0)"
    by (simp add: q)
  ultimately show ?thesis
    using 1 2 3 4 5 6 by blast
qed

subsection \<open>C6\<close>

text \<open>
  C6. In a well-formed state whose cursor is on the entry \<open>a\<close>, deregistering \<open>a\<close>
  returns. When \<open>a\<close> is not the only entry, the cursor is on the successor of \<open>a\<close> in
  the queue as it was, an entry that is still in the queue. When \<open>a\<close> is the only entry,
  the cursor is null and the counter 0; registering a task then (with no parent: no
  task is left to be one) returns, and the call of \<open>rec_sched_get_active_thread\<close> with
  a null \<open>ctx\<close> that follows returns the new task, with \<open>*by_waitpid = 0\<close>.
\<close>

theorem deregister_cursor_task:
  assumes "sched_inv s" and "current_entry s = Entry a"
  shows "\<exists>s'. rec_sched_deregister_thread (Entry a) s = Inr s' \<and>
           (head s \<noteq> [a] \<longrightarrow>
              current_entry s' = CIRCLEQ_LOOP_NEXT (head s) a \<and>
              (\<exists>b\<in>set (head s'). current_entry s' = Entry b)) \<and>
           (head s = [a] \<longrightarrow>
              current_entry s' = NULL \<and> rec_sched_get_num_threads s' = 0 \<and>
              (\<forall>w fl e child. 0 < child \<and> child < MAX_TID s \<longrightarrow>
                 (\<exists>s'' s'''.
                    rec_sched_register_thread w fl e 0 child s' = Inr s'' \<and>
                    rec_sched_get_active_thread w fl NULL s'' = Inr (s''', Entry e, 0))))"
proof -
  from assms have a: "a \<in> set (head s)" and dom: "dom (heap s) = set (head s)"
    and n: "num_active_threads s = int (length (head s))"
    by (auto simp: sched_inv_def)
  then obtain c where live: "heap s a = Some c"
    by auto
  define cur where "cur = (if head s = [a] then NULL else CIRCLEQ_LOOP_NEXT (head s) a)"
  define s' where "s' = sys_free (Entry a)
                (log_calls [Cleanup_hpc a, Sys_close (child_mem_fd c), Close (desched_fd c),
                            Sys_ptrace_detach (tid c), Sys_free (Entry a)]
                   (s\<lparr>current_entry := cur,
                       head := remove1 a (head s),
                       tid_to_entry := (tid_to_entry s)[nat (tid c) := NULL],
                       num_active_threads := num_active_threads s - 1\<rparr>))"
  have dereg: "rec_sched_deregister_thread (Entry a) s = Inr s'"
    using deregister_live [OF assms(1) live] assms(2) by (simp add: s'_def cur_def)
  have f: "heap s' = (heap s)(a := None)" "head s' = remove1 a (head s)"
    "length (tid_to_entry s') = length (tid_to_entry s)"
    "num_active_threads s' = num_active_threads s - 1" "current_entry s' = cur"
    by (simp_all add: s'_def sys_free_def log_calls_def)
  have more: "current_entry s' = CIRCLEQ_LOOP_NEXT (head s) a \<and>
              (\<exists>b\<in>set (head s'). current_entry s' = Entry b)" if "head s \<noteq> [a]"
  proof -
    from deregister_inv [OF assms(1) dereg] have "sched_inv s'" .
    then have "current_entry s' = NULL \<or> (\<exists>b\<in>set (head s'). current_entry s' = Entry b)"
      by (simp add: sched_inv_def)
    moreover from assms(1) have "distinct (head s)"
      by (simp add: sched_inv_def)
    from loop_next_member [OF this a] have "CIRCLEQ_LOOP_NEXT (head s) a \<noteq> NULL"
      by auto
    ultimately show ?thesis
      using that f(5) by (auto simp: cur_def)
  qed
  have sole: "\<exists>s'' s'''.
                    rec_sched_register_thread w fl e 0 child s' = Inr s'' \<and>
                    rec_sched_get_active_thread w fl NULL s'' = Inr (s''', Entry e, 0)"
    if "head s = [a]" and "0 < child \<and> child < MAX_TID s" for w fl e child
  proof -
    from that n have "num_active_threads s' = 0" and "head s' = []"
      and "current_entry s' = NULL"
      by (simp_all add: f cur_def)
    moreover from that have "0 < child" and "child < MAX_TID s'"
      by (simp_all add: MAX_TID_def f)
    ultimately obtain s'' where reg: "rec_sched_register_thread w fl e 0 child s' = Inr s''"
      by (simp add: rec_sched_register_thread_def INT_MAX_def)
    from register_result [OF reg] obtain c' where run: "exec_state c' = RUNNABLE"
      and "heap s'' e = Some c'" and "head s'' = head s' @ [e]"
      and "current_entry s'' = current_entry s'"
      by auto
    with \<open>head s' = []\<close> \<open>current_entry s' = NULL\<close>
    have "current_entry (bootstrap s'') = Entry e" and "heap s'' e = Some c'"
      by (simp_all add: bootstrap_def CIRCLEQ_FIRST_def)
    from get_active_thread_first_call [OF this] run reg show ?thesis
      by simp
  qed
  have "current_entry s' = NULL \<and> rec_sched_get_num_threads s' = 0" if "head s = [a]"
    using that n by (simp add: f cur_def rec_sched_get_num_threads_def)
  with dereg more sole show ?thesis
    by blast
qed

theorem deregister_cursor_task_witness:
  "sched_inv only_b \<and> current_entry only_b = Entry 2 \<and> head only_b = [2] \<and>
   (\<exists>s' s'' s'''.
      rec_sched_deregister_thread (Entry 2) only_b = Inr s' \<and>
      current_entry s' = NULL \<and> rec_sched_get_num_threads s' = 0 \<and>
      rec_sched_register_thread env0 flags10 4 0 3 s' = Inr s'' \<and>
      rec_sched_get_active_thread env0 flags10 NULL s'' = Inr (s''', Entry 4, 0))"
proof -
  have inv: "sched_inv only_b"
    by (simp add: sched_inv_def only_b_def index_count_def get_entry_def MAX_TID_def
        fresh_task_def)
  have cur: "current_entry only_b = Entry 2" and sole: "head only_b = [2]"
    by (simp_all add: only_b_def)
  have child: "(0::int) < 3 \<and> 3 < MAX_TID only_b"
    by (simp add: MAX_TID_def only_b_def)
  from deregister_cursor_task [OF inv cur] sole child obtain s'
    where "rec_sched_deregister_thread (Entry 2) only_b = Inr s'"
      and "current_entry s' = NULL" and "rec_sched_get_num_threads s' = 0"
      and "\<exists>s'' s'''. rec_sched_register_thread env0 flags10 4 0 3 s' = Inr s'' \<and>
             rec_sched_get_active_thread env0 flags10 NULL s'' = Inr (s''', Entry 4, 0)"
    by blast
  with inv cur sole show ?thesis
    by blast
qed

subsection \<open>C7\<close>

text \<open>
  C7. The claim fails for a sequence that registers a task id which is registered
  already: \<open>rec_sched_register_thread\<close> does not look at the slot it overwrites. After
  two registrations of the task id 5 two live records hold that id, the queue has two
  entries and the counter says 2, and the index holds one entry.
\<close>

theorem registered_twice_counterexample:
  "run_calls env0 flags10 [Register 1 0 5, Register 2 0 5] (sched_init 8) = Inr twice_5 \<and>
   map_option tid (heap twice_5 1) = Some 5 \<and> map_option tid (heap twice_5 2) = Some 5 \<and>
   \<not> unique_tids twice_5 \<and>
   length (head twice_5) = 2 \<and> index_count twice_5 = 1 \<and>
   rec_sched_get_num_threads twice_5 = 2"
proof -
  have live: "heap twice_5 1 = Some (fresh_task 5) \<and> heap twice_5 2 = Some (fresh_task 5)"
    by (simp add: twice_5_def)
  have "\<not> unique_tids twice_5"
  proof
    assume "unique_tids twice_5"
    with live have "(1::nat) = 2"
      unfolding unique_tids_def by blast
    then show False
      by simp
  qed
  moreover
  have "run_calls env0 flags10 [Register 1 0 5, Register 2 0 5] (sched_init 8) = Inr twice_5"
    by (simp add: rec_sched_register_thread_def sched_init_def twice_5_def env0_def
        flags10_def fresh_task_def zero_context_def MAX_TID_def INT_MAX_def
        CIRCLEQ_INSERT_TAIL_def eval_nat_numeral)
  ultimately show ?thesis
    by (simp add: twice_5_def index_count_def rec_sched_get_num_threads_def fresh_task_def)
qed

text \<open>
  C7, amended. Take a sequence of calls of \<open>rec_sched_register_thread\<close> and
  \<open>rec_sched_deregister_thread\<close>, from the initial state, in which every registration
  gets a block that is not in use and a task id whose index slot is null. If the
  sequence runs to its end, then after each of its calls no two live records share a
  task id, and the length of the queue, the number of index entries and the value of
  \<open>rec_sched_get_num_threads\<close> are equal.
\<close>

theorem registry_consistent:
  assumes "new_tasks w fl cs (sched_init n)"
    and "run_calls w fl cs (sched_init n) = Inr s"
  shows "\<forall>k\<le>length cs. \<exists>sk.
           run_calls w fl (take k cs) (sched_init n) = Inr sk \<and>
           unique_tids sk \<and>
           length (head sk) = index_count sk \<and>
           int (index_count sk) = rec_sched_get_num_threads sk"
proof (intro allI impI)
  fix k assume "k \<le> length cs"
  from run_calls_take [OF assms(2,1), of k] obtain sk
    where sk: "run_calls w fl (take k cs) (sched_init n) = Inr sk"
      and nt: "new_tasks w fl (take k cs) (sched_init n)"
    by auto
  from run_calls_inv [OF sched_inv_init nt sk] have inv: "sched_inv sk" .
  then have "length (head sk) = index_count sk"
    and "int (index_count sk) = rec_sched_get_num_threads sk"
    by (simp_all add: sched_inv_def rec_sched_get_num_threads_def)
  with sk sched_inv_unique_tids [OF inv]
  show "\<exists>sk. run_calls w fl (take k cs) (sched_init n) = Inr sk \<and>
           unique_tids sk \<and>
           length (head sk) = index_count sk \<and>
           int (index_count sk) = rec_sched_get_num_threads sk"
    by blast
qed

theorem registry_consistent_witness:
  "new_tasks env0 flags10 [Register 1 0 5, Register 2 5 6, Register 3 5 7, Deregister (Entry 2)]
     (sched_init 8) \<and>
   run_calls env0 flags10 [Register 1 0 5, Register 2 5 6, Register 3 5 7, Deregister (Entry 2)]
     (sched_init 8) = Inr ac \<and>
   unique_tids ac \<and> length (head ac) = index_count ac \<and>
   int (index_count ac) = rec_sched_get_num_threads ac"
proof -
  let ?cs = "[Register 1 0 5, Register 2 5 6, Register 3 5 7, Deregister (Entry 2)]"
  have run: "run_calls env0 flags10 ?cs (sched_init 8) = Inr ac"
    by (simp add: rec_sched_register_thread_def sched_init_def abc_def ac_def env0_def
        flags10_def fresh_task_def zero_context_def MAX_TID_def INT_MAX_def get_task_def
        get_entry_def deref_def CIRCLEQ_INSERT_TAIL_def eval_nat_numeral
        rec_sched_deregister_thread_def move_cursor_off_def CIRCLEQ_REMOVE_def INT_MIN_def
        sys_free_def log_calls_def)
  have new: "new_tasks env0 flags10 ?cs (sched_init 8)"
    by (simp add: rec_sched_register_thread_def sched_init_def env0_def
        flags10_def zero_context_def MAX_TID_def INT_MAX_def get_task_def
        get_entry_def deref_def CIRCLEQ_INSERT_TAIL_def eval_nat_numeral
        split: sum.split)
  from registry_consistent [OF new run] have "\<exists>sk.
           run_calls env0 flags10 (take (length ?cs) ?cs) (sched_init 8) = Inr sk \<and>
           unique_tids sk \<and>
           length (head sk) = index_count sk \<and>
           int (index_count sk) = rec_sched_get_num_threads sk"
    by blast
  with run have "unique_tids ac \<and> length (head ac) = index_count ac \<and>
           int (index_count ac) = rec_sched_get_num_threads ac"
    by simp
  with new run show ?thesis
    by simp
qed

subsection \<open>C8\<close>

text \<open>
  C8. From a well-formed state \<open>rec_sched_exit_all\<close> returns, and what it returns is
  the initial state for the same index size (empty queue, every index slot null, null
  cursor, counter 0, no live entry) with a longer trace: for each entry of the queue,
  first to last, the \<open>SIGINT\<close> to its task followed by the calls of its
  deregistration. So \<open>rec_sched_get_num_threads\<close> gives 0 afterwards.
\<close>

theorem exit_all_leaves_initial_state:
  assumes "sched_inv s"
  shows "rec_sched_exit_all s =
           Inr ((sched_init (length (tid_to_entry s)))
                  \<lparr>trace := trace s @ concat (map (terminate_calls s) (head s))\<rparr>) \<and>
         (\<forall>s'. rec_sched_exit_all s = Inr s' \<longrightarrow>
            CIRCLEQ_EMPTY (head s') \<and> index_count s' = 0 \<and> current_entry s' = NULL \<and>
            rec_sched_get_num_threads s' = 0)"
proof -
  have "rec_sched_exit_all s =
           Inr ((sched_init (length (tid_to_entry s)))
                  \<lparr>trace := trace s @ concat (map (terminate_calls s) (head s))\<rparr>)"
    using assms by (simp add: exit_all_result)
  then show ?thesis
    by (simp add: sched_init_def CIRCLEQ_EMPTY_def CIRCLEQ_FIRST_def index_count_def
        rec_sched_get_num_threads_def)
qed

theorem exit_all_leaves_initial_state_witness:
  "sched_inv abc \<and>
   rec_sched_exit_all abc =
     Inr ((sched_init 8)
            \<lparr>trace := trace abc @
               [Sys_kill 5 2, Cleanup_hpc 1, Sys_close 105, Close (- 1), Sys_ptrace_detach 5,
                Sys_free (Entry 1),
                Sys_kill 6 2, Cleanup_hpc 2, Sys_close 106, Close (- 1), Sys_ptrace_detach 6,
                Sys_free (Entry 2),
                Sys_kill 7 2, Cleanup_hpc 3, Sys_close 107, Close (- 1), Sys_ptrace_detach 7,
                Sys_free (Entry 3)]\<rparr>)"
proof -
  have "new_tasks env0 flags10 [Register 1 0 5, Register 2 5 6, Register 3 5 7] (sched_init 8)"
    by (simp add: rec_sched_register_thread_def sched_init_def env0_def
        flags10_def zero_context_def MAX_TID_def INT_MAX_def get_task_def
        get_entry_def deref_def CIRCLEQ_INSERT_TAIL_def eval_nat_numeral
        split: sum.split)
  with sched_inv_init have inv: "sched_inv abc"
    using registered_abc by (rule run_calls_inv)
  from exit_all_leaves_initial_state [OF inv]
  have "rec_sched_exit_all abc =
           Inr ((sched_init (length (tid_to_entry abc)))
                  \<lparr>trace := trace abc @ concat (map (terminate_calls abc) (head abc))\<rparr>)"
    by (rule conjunct1)
  moreover have "length (tid_to_entry abc) = 8"
    by (simp add: abc_def)
  moreover have "concat (map (terminate_calls abc) (head abc)) =
               [Sys_kill 5 2, Cleanup_hpc 1, Sys_close 105, Close (- 1), Sys_ptrace_detach 5,
                Sys_free (Entry 1),
                Sys_kill 6 2, Cleanup_hpc 2, Sys_close 106, Close (- 1), Sys_ptrace_detach 6,
                Sys_free (Entry 2),
                Sys_kill 7 2, Cleanup_hpc 3, Sys_close 107, Close (- 1), Sys_ptrace_detach 7,
                Sys_free (Entry 3)]"
    by (simp add: abc_def terminate_calls_def fresh_task_def SIGINT_def)
  ultimately show ?thesis
    using inv by simp
qed

subsection \<open>C9\<close>

text \<open>
  C9. Two calls of \<open>rec_sched_get_active_thread\<close> on the same scheduler state, with the
  same \<open>ctx\<close> and flags, against wait backends that answer alike (the same answer to
  the poll of every live task's id, the same results of the blocking \<open>waitpid\<close>) have
  the same outcome: the same task, the same \<open>*by_waitpid\<close> and the same state, or the
  same failure. What else the two backends would answer does not matter.
\<close>

theorem get_active_thread_deterministic:
  assumes "\<forall>a c. heap s a = Some c \<longrightarrow>
             sys_waitpid_nonblock w1 (tid c) = sys_waitpid_nonblock w2 (tid c)"
    and "waitpid w1 = waitpid w2"
  shows "rec_sched_get_active_thread w1 fl ctx s = rec_sched_get_active_thread w2 fl ctx s"
proof -
  have picks: "pick w1 s2 = pick w2 s2"
    if "prefer_next (max_events fl) ctx (bootstrap s) = Inr s2" for s2
  proof (rule pick_same_responses [OF _ assms(2)], intro allI impI)
    fix a c2 assume "heap s2 a = Some c2"
    from prefer_next_tids [OF that this] obtain c
      where "heap s a = Some c" and "tid c = tid c2"
      by (auto simp: bootstrap_fields)
    with assms(1)
    show "sys_waitpid_nonblock w1 (tid c2) = sys_waitpid_nonblock w2 (tid c2)"
      by metis
  qed
  show ?thesis
  proof (cases "prefer_next (max_events fl) ctx (bootstrap s)")
    case (Inl e)
    then show ?thesis
      by (simp add: rec_sched_get_active_thread_def Let_def split: sum.split bool.split)
  next
    case (Inr s2)
    with picks [OF Inr] show ?thesis
      by (simp add: rec_sched_get_active_thread_def Let_def split: sum.split bool.split)
  qed
qed

theorem get_active_thread_deterministic_witness:
  "sys_waitpid_nonblock env_b_ready 5 = sys_waitpid_nonblock env_b_ready' 5 \<and>
   sys_waitpid_nonblock env_b_ready 6 = sys_waitpid_nonblock env_b_ready' 6 \<and>
   sys_waitpid_nonblock env_b_ready 7 = sys_waitpid_nonblock env_b_ready' 7 \<and>
   sys_waitpid_nonblock env_b_ready 99 \<noteq> sys_waitpid_nonblock env_b_ready' 99 \<and>
   waitpid env_b_ready = waitpid env_b_ready' \<and>
   rec_sched_get_active_thread env_b_ready flags10 NULL all_blocked =
     rec_sched_get_active_thread env_b_ready' flags10 NULL all_blocked \<and>
   map_sum id snd (rec_sched_get_active_thread env_b_ready' flags10 NULL all_blocked) =
     Inr (Entry 2, 1)"
proof -
  have polls: "\<forall>a c. heap all_blocked a = Some c \<longrightarrow>
    sys_waitpid_nonblock env_b_ready (tid c) = sys_waitpid_nonblock env_b_ready' (tid c)"
    by (auto simp: env_b_ready_def env_b_ready'_def env0_def all_blocked_def abc_def
        fresh_task_def split: if_splits)
  have waits: "waitpid env_b_ready = waitpid env_b_ready'"
    by (simp add: env_b_ready_def env_b_ready'_def env0_def)
  have "map_sum id snd (rec_sched_get_active_thread env_b_ready flags10 NULL all_blocked) =
     Inr (Entry 2, 1)"
    by (simp add: rec_sched_get_active_thread_def all_blocked_def abc_def fresh_task_def
        bootstrap_def CIRCLEQ_FIRST_def unswitchable_def prefer_next_def pick_def deref_def
        next_entry_def CIRCLEQ_LOOP_NEXT_def cqe_next_def log_calls_def store_def
        commit_def note_switch_def env_b_ready_def env0_def)
  with get_active_thread_deterministic [OF polls waits, of flags10 NULL] waits show ?thesis
    by (simp add: env_b_ready_def env_b_ready'_def env0_def)
qed

subsection \<open>C10\<close>

text \<open>
  C10. \<open>rec_sched_register_thread\<close> with a non-zero \<open>parent\<close> whose index slot is
  null: \<open>get_task\<close> returns null, nothing checks it, and reading
  \<open>parent_ctx->syscallbuf_lib_start\<close> dereferences null. The child passes the
  assertion at the head of the function and \<open>parent\<close> is within the index.
\<close>

theorem register_unknown_parent_null_dereference:
  assumes "0 < child" and "child < MAX_TID s"
    and "parent \<noteq> 0" and "get_entry s parent = Inr NULL"
  shows "get_task s parent = Inr NULL \<and>
         rec_sched_register_thread w fl e parent child s = Inl Null_dereference"
  using assms by (simp add: rec_sched_register_thread_def get_task_def deref_def)

theorem register_unknown_parent_null_dereference_witness:
  "(0::int) < 6 \<and> 6 < MAX_TID abc \<and> (4::int) \<noteq> 0 \<and> get_entry abc 4 = Inr NULL \<and>
   get_task abc 4 = Inr NULL \<and>
   rec_sched_register_thread env0 flags10 4 4 6 abc = Inl Null_dereference"
  using register_unknown_parent_null_dereference [of 6 abc 4 env0 flags10 4]
  by (simp add: get_entry_def MAX_TID_def abc_def)

end
